theory Spec2Isabelle
  imports Main "HOL-Library.AList" "HOL-Library.Char_ord" "HOL-Library.List_Lexorder"
begin

unbundle bit_operations_syntax

section \<open>Tile grid generation (fuzzers/005-tilegrid/generate.py)\<close>

text \<open>
  The embedding follows \<^verbatim>\<open>generate.py\<close> function by function.

  \<^item> A Python \<^verbatim>\<open>dict\<close> is an association list in insertion order: \<^const>\<open>map_of\<close> reads
    a key, \<^const>\<open>AList.update\<close> overwrites the value of a key in place or appends a new
    key at the end, \<open>map fst\<close> lists the keys in iteration order.
  \<^item> Python integers are \<^typ>\<open>int\<close>; strings are \<^typ>\<open>string\<close>, ordered as Python orders
    ASCII strings (lexicographically by character code).
  \<^item> A dict with fixed keys (a tile, a segment, a bits block) is a record; a key that
    may be absent is an \<open>option\<close> field.
  \<^item> Every exception (\<^verbatim>\<open>KeyError\<close> of a failed lookup, \<^verbatim>\<open>AssertionError\<close>,
    \<^verbatim>\<open>ValueError\<close>) is a value \<open>Inl e\<close>; a \<^verbatim>\<open>for\<close> loop is a fold that stops at the
    first error.
  File reading, JSON output and the \<^verbatim>\<open>verbose\<close> printing are left out.
\<close>

subsection \<open>Errors and loops\<close>

datatype error = KeyError | AssertionError | ValueError

text \<open>A \<^verbatim>\<open>for\<close> loop over a list whose body may raise.\<close>

fun for_each :: "('a \<Rightarrow> 's \<Rightarrow> error + 's) \<Rightarrow> 'a list \<Rightarrow> 's \<Rightarrow> error + 's" where
  "for_each body [] s = Inr s"
| "for_each body (x # xs) s =
     (case body x s of Inl e \<Rightarrow> Inl e | Inr s' \<Rightarrow> for_each body xs s')"

text \<open>A \<^verbatim>\<open>for i in range(n)\<close> loop whose body does not read \<open>i\<close>.\<close>

fun repeat :: "nat \<Rightarrow> ('s \<Rightarrow> error + 's) \<Rightarrow> 's \<Rightarrow> error + 's" where
  "repeat 0 body s = Inr s"
| "repeat (Suc n) body s =
     (case body s of Inl e \<Rightarrow> Inl e | Inr s' \<Rightarrow> repeat n body s')"

subsection \<open>Data\<close>

type_synonym block_type = string

text \<open>\<^verbatim>\<open>baseaddr\<close> dict of a segment or tile: block type to \<^verbatim>\<open>[framebase, wordbase]\<close>.\<close>

type_synonym baseaddrs = "(block_type \<times> (int \<times> int)) list"

text \<open>A tile as \<^verbatim>\<open>load_tiles\<close> returns it.\<close>

record tile_in =
  i_type :: string
  i_name :: string
  i_grid_x :: int
  i_grid_y :: int
  i_sites :: "(string \<times> string) list"

text \<open>One entry of a tile's \<^verbatim>\<open>bits\<close> dict.\<close>

record block =
  b_baseaddr :: string
  b_offset :: int
  b_height :: int

text \<open>A value of \<^verbatim>\<open>database\<close>; the keys added after \<^verbatim>\<open>make_database\<close> are optional.\<close>

record tile =
  t_type :: string
  t_sites :: "(string \<times> string) list"
  t_grid_x :: int
  t_grid_y :: int
  t_segment :: "string option"
  t_bits :: "(block_type \<times> block) list option"
  t_frames :: "int option"
  t_words :: "int option"
  t_segment_type :: "string option"

text \<open>A value of \<^verbatim>\<open>segments\<close>.\<close>

record segment =
  s_tiles :: "string list"
  s_type :: string
  s_frames :: int
  s_words :: int
  s_baseaddr :: "baseaddrs option"

type_synonym database = "(string \<times> tile) list"
type_synonym segments = "(string \<times> segment) list"
type_synonym tiles_by_grid = "((int \<times> int) \<times> string) list"

subsection \<open>Strings\<close>

text \<open>\<^verbatim>\<open>str.lower()\<close> on ASCII text.\<close>

definition lower_char :: "char \<Rightarrow> char" where
  "lower_char c =
     (if CHR ''A'' \<le> c \<and> c \<le> CHR ''Z'' then char_of (of_char c + (32::nat)) else c)"

definition lower :: "string \<Rightarrow> string" where
  "lower s = map lower_char s"

definition digit_char :: "nat \<Rightarrow> char" where
  "digit_char n = ''0123456789ABCDEF'' ! n"

text \<open>\<^verbatim>\<open>"%d" % k\<close> for \<open>k \<ge> 0\<close>.\<close>

fun dec :: "nat \<Rightarrow> string" where
  "dec n = (if n < 10 then [digit_char n] else dec (n div 10) @ [digit_char (n mod 10)])"

declare dec.simps [simp del]

fun hex :: "nat \<Rightarrow> string" where
  "hex n = (if n < 16 then [digit_char n] else hex (n div 16) @ [digit_char (n mod 16)])"

declare hex.simps [simp del]

text \<open>\<^verbatim>\<open>'0x%08X' % a\<close>: the sign counts in the width of 8.\<close>

definition fmt_0x08X :: "int \<Rightarrow> string" where
  "fmt_0x08X a =
     (let sign = (if a < 0 then ''-'' else ''''); ds = hex (nat \<bar>a\<bar>)
      in ''0x'' @ sign @ replicate (8 - length sign - length ds) CHR ''0'' @ ds)"

text \<open>\<^verbatim>\<open>s.replace("_", r, 1)\<close>: the first underscore, if any, becomes \<open>r\<close>.\<close>

fun replace_first_underscore :: "string \<Rightarrow> string \<Rightarrow> string" where
  "replace_first_underscore r [] = []"
| "replace_first_underscore r (c # cs) =
     (if c = CHR ''_'' then r @ cs else c # replace_first_underscore r cs)"

subsection \<open>Block types\<close>

definition block_type_i2s :: "(int \<times> block_type) list" where
  "block_type_i2s = [(0, ''CLB_IO_CLK''), (1, ''BLOCK_RAM''), (2, ''CFG_CLB'')]"

definition addr2btype :: "int \<Rightarrow> error + block_type" where
  "addr2btype base_addr =
     (let block_type_i = (drop_bit 23 base_addr) AND 7
      in case map_of block_type_i2s block_type_i of
           None \<Rightarrow> Inl KeyError
         | Some s \<Rightarrow> Inr s)"

definition nolr :: "string \<Rightarrow> string" where
  "nolr tile_type =
     (let postfix = drop (length tile_type - 2) tile_type
      in if postfix = ''_L'' \<or> postfix = ''_R''
         then take (length tile_type - 2) tile_type
         else tile_type)"

subsection \<open>Indexing the input\<close>

definition make_database :: "tile_in list \<Rightarrow> database" where
  "make_database tiles =
     foldl (\<lambda>database tile.
        AList.update (i_name tile)
          \<lparr>t_type = i_type tile, t_sites = i_sites tile,
           t_grid_x = i_grid_x tile, t_grid_y = i_grid_y tile,
           t_segment = None, t_bits = None, t_frames = None, t_words = None,
           t_segment_type = None\<rparr> database) [] tiles"

text \<open>Body of the inner loop of \<^verbatim>\<open>make_tile_baseaddrs\<close>, for one site of one tile.\<close>

definition tile_baseaddr_site ::
  "(string \<times> int) list \<Rightarrow> string \<Rightarrow> string \<Rightarrow> (string \<times> baseaddrs) list
     \<Rightarrow> error + (string \<times> baseaddrs) list" where
  "tile_baseaddr_site site_baseaddr tile_name site_name tile_baseaddrs =
     (case map_of site_baseaddr site_name of
        None \<Rightarrow> Inr tile_baseaddrs
      | Some framebaseaddr \<Rightarrow>
          (case addr2btype framebaseaddr of
             Inl e \<Rightarrow> Inl e
           | Inr bt \<Rightarrow>
               (let tile_baseaddr =
                      (case map_of tile_baseaddrs tile_name of None \<Rightarrow> [] | Some d \<Rightarrow> d)
                in if bt \<in> set (map fst tile_baseaddr) then Inl AssertionError
                   else Inr (AList.update tile_name
                               (AList.update bt (framebaseaddr, 0) tile_baseaddr)
                               tile_baseaddrs))))"

definition make_tile_baseaddrs ::
  "tile_in list \<Rightarrow> (string \<times> int) list \<Rightarrow> error + (string \<times> baseaddrs) list" where
  "make_tile_baseaddrs tiles site_baseaddr =
     for_each (\<lambda>tile.
        for_each (tile_baseaddr_site site_baseaddr (i_name tile)) (map fst (i_sites tile)))
       tiles []"

definition make_tiles_by_grid :: "tile_in list \<Rightarrow> tiles_by_grid" where
  "make_tiles_by_grid tiles =
     foldl (\<lambda>g tile. AList.update (i_grid_x tile, i_grid_y tile) (i_name tile) g) [] tiles"

subsection \<open>Segment construction\<close>

text \<open>The loop \<^verbatim>\<open>for tile_name in tiles: database[tile_name]["segment"] = name\<close>.\<close>

definition set_segment :: "string \<Rightarrow> string \<Rightarrow> database \<Rightarrow> error + database" where
  "set_segment name tile_name database =
     (case map_of database tile_name of
        None \<Rightarrow> Inl KeyError
      | Some td \<Rightarrow> Inr (AList.update tile_name (td\<lparr>t_segment := Some name\<rparr>) database))"

text \<open>
  \<^verbatim>\<open>add_segment\<close>. The test \<^verbatim>\<open>if baseaddr:\<close> holds for a dict that is not empty; for
  \<^verbatim>\<open>None\<close> and for \<^verbatim>\<open>{}\<close> the segment gets no \<^verbatim>\<open>baseaddr\<close> key.
\<close>

definition add_segment ::
  "string \<Rightarrow> string list \<Rightarrow> string \<Rightarrow> int \<Rightarrow> int \<Rightarrow> baseaddrs option
     \<Rightarrow> database \<times> segments \<Rightarrow> error + database \<times> segments" where
  "add_segment name tiles segtype frames words baseaddr st =
     (case st of (database, segments) \<Rightarrow>
        if name \<in> set (map fst segments) then Inl AssertionError
        else
          (let segment = \<lparr>s_tiles = tiles, s_type = segtype, s_frames = frames,
                          s_words = words,
                          s_baseaddr = (case baseaddr of
                                          Some (e # es) \<Rightarrow> Some (e # es)
                                        | _ \<Rightarrow> None)\<rparr>;
               segments' = AList.update name segment segments
           in case for_each (set_segment name) tiles database of
                Inl e \<Rightarrow> Inl e
              | Inr database' \<Rightarrow> Inr (database', segments')))"

definition process_clb ::
  "tiles_by_grid \<Rightarrow> (string \<times> baseaddrs) list \<Rightarrow> string \<Rightarrow> string \<Rightarrow> int \<Rightarrow> int
     \<Rightarrow> database \<times> segments \<Rightarrow> error + database \<times> segments" where
  "process_clb tiles_by_grid tile_baseaddrs tile_name tile_type grid_x grid_y st =
     (case (if tile_type = ''CLBLL_L'' \<or> tile_type = ''CLBLM_L''
            then map_of tiles_by_grid (grid_x + 1, grid_y)
            else map_of tiles_by_grid (grid_x - 1, grid_y)) of
        None \<Rightarrow> Inl KeyError
      | Some int_tile_name \<Rightarrow>
          add_segment (''SEG_'' @ tile_name) [tile_name, int_tile_name] (lower tile_type)
            36 2 (map_of tile_baseaddrs tile_name) st)"

definition process_hclk ::
  "string \<Rightarrow> string \<Rightarrow> database \<times> segments \<Rightarrow> error + database \<times> segments" where
  "process_hclk tile_name tile_type st =
     add_segment (''SEG_'' @ tile_name) [tile_name] (lower tile_type) 26 1 None st"

text \<open>Body of \<^verbatim>\<open>for k in range(5)\<close> in \<^verbatim>\<open>process_bram_dsp\<close>.\<close>

definition bram_dsp_k ::
  "tiles_by_grid \<Rightarrow> (string \<times> baseaddrs) list \<Rightarrow> string \<Rightarrow> string \<Rightarrow> int \<Rightarrow> int
     \<Rightarrow> nat \<Rightarrow> database \<times> segments \<Rightarrow> error + database \<times> segments" where
  "bram_dsp_k tiles_by_grid tile_baseaddrs tile_name tile_type grid_x grid_y k st =
     (case (if tile_type = ''BRAM_L'' \<or> tile_type = ''DSP_L'' then
              (case map_of tiles_by_grid (grid_x + 1, grid_y - int k) of
                 None \<Rightarrow> Inl KeyError
               | Some interface_tile_name \<Rightarrow>
                   (case map_of tiles_by_grid (grid_x + 2, grid_y - int k) of
                      None \<Rightarrow> Inl KeyError
                    | Some int_tile_name \<Rightarrow> Inr (interface_tile_name, int_tile_name)))
            else if tile_type = ''BRAM_R'' \<or> tile_type = ''DSP_R'' then
              (case map_of tiles_by_grid (grid_x - 1, grid_y - int k) of
                 None \<Rightarrow> Inl KeyError
               | Some interface_tile_name \<Rightarrow>
                   (case map_of tiles_by_grid (grid_x - 2, grid_y - int k) of
                      None \<Rightarrow> Inl KeyError
                    | Some int_tile_name \<Rightarrow> Inr (interface_tile_name, int_tile_name)))
            else Inl AssertionError) of
        Inl e \<Rightarrow> Inl e
      | Inr (interface_tile_name, int_tile_name) \<Rightarrow>
          add_segment
            (''SEG_'' @ replace_first_underscore (dec k @ ''_'') tile_name)
            (if k = 0 then [tile_name, interface_tile_name, int_tile_name]
             else [interface_tile_name, int_tile_name])
            (replace_first_underscore (dec k @ ''_'') (lower tile_type))
            28 2
            (if k = 0 then map_of tile_baseaddrs tile_name else None) st)"

definition process_bram_dsp ::
  "tiles_by_grid \<Rightarrow> (string \<times> baseaddrs) list \<Rightarrow> string \<Rightarrow> string \<Rightarrow> int \<Rightarrow> int
     \<Rightarrow> database \<times> segments \<Rightarrow> error + database \<times> segments" where
  "process_bram_dsp tiles_by_grid tile_baseaddrs tile_name tile_type grid_x grid_y st =
     for_each (bram_dsp_k tiles_by_grid tile_baseaddrs tile_name tile_type grid_x grid_y)
       [0..<5] st"

definition process_default :: "database \<times> segments \<Rightarrow> error + database \<times> segments" where
  "process_default st = Inr st"

text \<open>The dispatch on \<^verbatim>\<open>nolr(tile_type)\<close> at the end of the loop body of \<^verbatim>\<open>make_segments\<close>.\<close>

definition process_tile ::
  "tiles_by_grid \<Rightarrow> (string \<times> baseaddrs) list \<Rightarrow> string \<times> tile
     \<Rightarrow> database \<times> segments \<Rightarrow> error + database \<times> segments" where
  "process_tile tiles_by_grid tile_baseaddrs item st =
     (case item of (tile_name, tile_data) \<Rightarrow>
        (let tile_type = t_type tile_data;
             grid_x = t_grid_x tile_data;
             grid_y = t_grid_y tile_data;
             family = nolr tile_type
         in if family = ''CLBLL'' \<or> family = ''CLBLM'' then
              process_clb tiles_by_grid tile_baseaddrs tile_name tile_type grid_x grid_y st
            else if family = ''HCLK'' then process_hclk tile_name tile_type st
            else if family = ''BRAM'' \<or> family = ''DSP'' then
              process_bram_dsp tiles_by_grid tile_baseaddrs tile_name tile_type
                grid_x grid_y st
            else process_default st))"

text \<open>
  \<^verbatim>\<open>make_segments\<close> iterates over \<^verbatim>\<open>database.items()\<close>; the loop only ever sets the
  \<^verbatim>\<open>segment\<close> key of existing tiles, so the items' names, types and coordinates are
  those of the database it starts from. It returns the segments and leaves the
  database modified.
\<close>

definition make_segments ::
  "database \<Rightarrow> tiles_by_grid \<Rightarrow> (string \<times> baseaddrs) list
     \<Rightarrow> error + database \<times> segments" where
  "make_segments database tiles_by_grid tile_baseaddrs =
     for_each (process_tile tiles_by_grid tile_baseaddrs) database (database, [])"

subsection \<open>Base address propagation\<close>

text \<open>The list comprehension of \<^verbatim>\<open>get_inttile\<close>; \<^verbatim>\<open>database[tile]\<close> may raise.\<close>

fun inttiles :: "database \<Rightarrow> string list \<Rightarrow> error + string list" where
  "inttiles database [] = Inr []"
| "inttiles database (t # ts) =
     (case map_of database t of
        None \<Rightarrow> Inl KeyError
      | Some td \<Rightarrow>
          (case inttiles database ts of
             Inl e \<Rightarrow> Inl e
           | Inr r \<Rightarrow>
               Inr (if t_type td = ''INT_L'' \<or> t_type td = ''INT_R'' then t # r else r)))"

definition get_inttile :: "database \<Rightarrow> segment \<Rightarrow> error + string" where
  "get_inttile database segment =
     (case inttiles database (s_tiles segment) of
        Inl e \<Rightarrow> Inl e
      | Inr [t] \<Rightarrow> Inr t
      | Inr _ \<Rightarrow> Inl AssertionError)"

text \<open>\<^verbatim>\<open>sorted(d.items())\<close> of a dict: its keys are distinct, so the key decides.\<close>

definition sorted_items :: "('k::linorder \<times> 'v) list \<Rightarrow> ('k \<times> 'v) list" where
  "sorted_items d = sort_key fst d"

text \<open>
  Lines 296 to 323 of \<^verbatim>\<open>seg_base_addr_lr_INT\<close>: the destination coordinate and the
  mirrored \<open>framebase\<close> are known, \<open>opposite\<close> is the type asserted of the tile there.
  \<^verbatim>\<open>setdefault("baseaddr", {})\<close> adds the key only when it is absent, and then the
  block type is not in the new dict: where the block type is found, nothing was changed.
\<close>

definition lr_assign ::
  "database \<Rightarrow> tiles_by_grid \<Rightarrow> block_type \<Rightarrow> int \<times> int \<Rightarrow> string \<Rightarrow> int \<Rightarrow> int
     \<Rightarrow> segments \<Rightarrow> error + segments" where
  "lr_assign database tiles_by_grid block_type coord opposite framebase wordbase segments =
     (case map_of tiles_by_grid coord of
        None \<Rightarrow> Inr segments
      | Some tile \<Rightarrow>
          (case map_of database tile of
             None \<Rightarrow> Inl KeyError
           | Some td \<Rightarrow>
               if t_type td \<noteq> opposite then Inl AssertionError
               else
                 (case t_segment td of
                    None \<Rightarrow> Inl AssertionError
                  | Some seg \<Rightarrow>
                      (case map_of segments seg of
                         None \<Rightarrow> Inl KeyError
                       | Some sd \<Rightarrow>
                           (let seg_baseaddrs =
                                  (case s_baseaddr sd of None \<Rightarrow> [] | Some d \<Rightarrow> d)
                            in case map_of seg_baseaddrs block_type of
                                 Some v \<Rightarrow>
                                   if v = (framebase, wordbase) then Inr segments
                                   else Inl AssertionError
                               | None \<Rightarrow>
                                   Inr (AList.update seg
                                          (sd\<lparr>s_baseaddr :=
                                               Some (AList.update block_type
                                                       (framebase, wordbase) seg_baseaddrs)\<rparr>)
                                          segments))))))"

text \<open>Body of the inner loop of \<^verbatim>\<open>seg_base_addr_lr_INT\<close>, for one item of the source.\<close>

definition lr_item ::
  "database \<Rightarrow> tiles_by_grid \<Rightarrow> segment \<Rightarrow> block_type \<times> (int \<times> int)
     \<Rightarrow> segments \<Rightarrow> error + segments" where
  "lr_item database tiles_by_grid segment item segments =
     (case item of (block_type, (framebase, wordbase)) \<Rightarrow>
        if block_type \<noteq> ''CLB_IO_CLK'' then Inr segments
        else
          (case get_inttile database segment of
             Inl e \<Rightarrow> Inl e
           | Inr inttile \<Rightarrow>
               (case map_of database inttile of
                  None \<Rightarrow> Inl KeyError
                | Some it \<Rightarrow>
                    if t_type it = ''INT_L'' then
                      lr_assign database tiles_by_grid block_type
                        (t_grid_x it + 1, t_grid_y it) ''INT_R'' (framebase + 0x80) wordbase
                        segments
                    else if t_type it = ''INT_R'' then
                      lr_assign database tiles_by_grid block_type
                        (t_grid_x it - 1, t_grid_y it) ''INT_L'' (framebase - 0x80) wordbase
                        segments
                    else Inl AssertionError)))"

text \<open>Body of the outer loop of \<^verbatim>\<open>seg_base_addr_lr_INT\<close>.\<close>

definition lr_segment ::
  "database \<Rightarrow> tiles_by_grid \<Rightarrow> string \<Rightarrow> segments \<Rightarrow> error + segments" where
  "lr_segment database tiles_by_grid segment_name segments =
     (case map_of segments segment_name of
        None \<Rightarrow> Inl KeyError
      | Some segment \<Rightarrow>
          (case s_baseaddr segment of
             None \<Rightarrow> Inr segments
           | Some [] \<Rightarrow> Inr segments
           | Some baseaddrs \<Rightarrow>
               for_each (lr_item database tiles_by_grid segment)
                 (sorted_items baseaddrs) segments))"

definition seg_base_addr_lr_INT ::
  "database \<Rightarrow> segments \<Rightarrow> tiles_by_grid \<Rightarrow> error + segments" where
  "seg_base_addr_lr_INT database segments tiles_by_grid =
     for_each (lr_segment database tiles_by_grid) (sort (map fst segments)) segments"

text \<open>The \<^verbatim>\<open>if wordbase == 50\<close> statement of the vertical walk.\<close>

definition next_wordbase :: "int \<Rightarrow> int" where
  "next_wordbase wordbase = (if wordbase = 50 then wordbase + 1 else wordbase + 2)"

text \<open>
  Body of \<^verbatim>\<open>for i in range(50)\<close> in \<^verbatim>\<open>seg_base_addr_up_INT\<close>; the loop carries
  \<open>grid_y\<close>, \<open>wordbase\<close> and the segments.
\<close>

definition up_step ::
  "database \<Rightarrow> tiles_by_grid \<Rightarrow> block_type \<Rightarrow> int \<Rightarrow> int
     \<Rightarrow> int \<times> int \<times> segments \<Rightarrow> error + int \<times> int \<times> segments" where
  "up_step database tiles_by_grid block_type framebase grid_x st =
     (case st of (grid_y, wordbase, segments) \<Rightarrow>
        (let grid_y' = grid_y - 1 in
         case map_of tiles_by_grid (grid_x, grid_y') of
           None \<Rightarrow> Inl KeyError
         | Some dst_name \<Rightarrow>
             (case map_of database dst_name of
                None \<Rightarrow> Inl KeyError
              | Some dst_tile \<Rightarrow>
                  (let wordbase' = next_wordbase wordbase in
                   case t_segment dst_tile of
                     None \<Rightarrow> Inl KeyError
                   | Some dst_segment_name \<Rightarrow>
                       (case map_of segments dst_segment_name of
                          None \<Rightarrow> Inl KeyError
                        | Some sd \<Rightarrow>
                            Inr (grid_y', wordbase',
                                 AList.update dst_segment_name
                                   (sd\<lparr>s_baseaddr :=
                                        Some (AList.update block_type (framebase, wordbase')
                                                (case s_baseaddr sd of
                                                   None \<Rightarrow> []
                                                 | Some d \<Rightarrow> d))\<rparr>)
                                   segments))))))"

text \<open>Body of the loop over the items of one source segment.\<close>

definition up_item ::
  "database \<Rightarrow> tiles_by_grid \<Rightarrow> segment \<Rightarrow> block_type \<times> (int \<times> int)
     \<Rightarrow> segments \<Rightarrow> error + segments" where
  "up_item database tiles_by_grid src_segment item segments =
     (case item of (block_type, (framebase, wordbase)) \<Rightarrow>
        if block_type \<noteq> ''CLB_IO_CLK'' then Inr segments
        else
          (case get_inttile database src_segment of
             Inl e \<Rightarrow> Inl e
           | Inr inttile \<Rightarrow>
               (case map_of database inttile of
                  None \<Rightarrow> Inl KeyError
                | Some it \<Rightarrow>
                    (case repeat 50
                            (up_step database tiles_by_grid block_type framebase
                               (t_grid_x it))
                            (t_grid_y it, wordbase, segments) of
                       Inl e \<Rightarrow> Inl e
                     | Inr (grid_y, wordbase', segments') \<Rightarrow> Inr segments'))))"

text \<open>Body of the loop over the sorted source names.\<close>

definition up_segment ::
  "database \<Rightarrow> tiles_by_grid \<Rightarrow> string \<Rightarrow> segments \<Rightarrow> error + segments" where
  "up_segment database tiles_by_grid src_segment_name segments =
     (case map_of segments src_segment_name of
        None \<Rightarrow> Inl KeyError
      | Some src_segment \<Rightarrow>
          (case s_baseaddr src_segment of
             None \<Rightarrow> Inl KeyError
           | Some baseaddrs \<Rightarrow>
               for_each (up_item database tiles_by_grid src_segment)
                 (sorted_items baseaddrs) segments))"

text \<open>The snapshot \<^verbatim>\<open>src_segment_names\<close>: the segments that have a \<^verbatim>\<open>baseaddr\<close> key.\<close>

definition src_segment_names :: "segments \<Rightarrow> string list" where
  "src_segment_names segments =
     map fst (filter (\<lambda>(segment_name, segment). s_baseaddr segment \<noteq> None) segments)"

definition seg_base_addr_up_INT ::
  "database \<Rightarrow> segments \<Rightarrow> tiles_by_grid \<Rightarrow> error + segments" where
  "seg_base_addr_up_INT database segments tiles_by_grid =
     for_each (up_segment database tiles_by_grid) (sort (src_segment_names segments))
       segments"

subsection \<open>Bit annotation\<close>

definition add_tile_bits :: "tile \<Rightarrow> int \<Rightarrow> int \<Rightarrow> int \<Rightarrow> error + tile" where
  "add_tile_bits tile_db baseaddr offset height =
     (let bits = (case t_bits tile_db of None \<Rightarrow> [] | Some b \<Rightarrow> b) in
      case addr2btype baseaddr of
        Inl e \<Rightarrow> Inl e
      | Inr block_type \<Rightarrow>
          if block_type \<in> set (map fst bits) then Inl AssertionError
          else Inr (tile_db\<lparr>t_bits :=
                      Some (AList.update block_type
                              \<lparr>b_baseaddr = fmt_0x08X baseaddr, b_offset = offset,
                               b_height = height\<rparr> bits)\<rparr>))"

text \<open>The height table of \<^verbatim>\<open>add_bits\<close>.\<close>

definition tile_heights :: "(string \<times> int) list" where
  "tile_heights =
     [(''CLBLL'', 2), (''CLBLM'', 2), (''INT'', 2), (''HCLK'', 1), (''BRAM'', 10),
      (''DSP'', 10), (''INT_INTERFACE'', 0), (''BRAM_INT_INTERFACE'', 0)]"

text \<open>Body of the loop over the tiles of a segment, for one base address.\<close>

definition add_bits_tile ::
  "int \<Rightarrow> int \<Rightarrow> string \<Rightarrow> database \<Rightarrow> error + database" where
  "add_bits_tile baseaddr offset tile_name database =
     (case map_of database tile_name of
        None \<Rightarrow> Inl KeyError
      | Some td \<Rightarrow>
          (case map_of tile_heights (nolr (t_type td)) of
             None \<Rightarrow> Inl ValueError
           | Some height \<Rightarrow>
               if height \<noteq> 0 then
                 (case add_tile_bits td baseaddr offset height of
                    Inl e \<Rightarrow> Inl e
                  | Inr td' \<Rightarrow> Inr (AList.update tile_name td' database))
               else Inr database))"

text \<open>Body of the loop over the segments; \<^verbatim>\<open>segments[segment_name]["baseaddr"]\<close> may raise.\<close>

definition add_bits_segment :: "string \<times> segment \<Rightarrow> database \<Rightarrow> error + database" where
  "add_bits_segment item database =
     (case item of (segment_name, segment) \<Rightarrow>
        (case s_baseaddr segment of
           None \<Rightarrow> Inl KeyError
         | Some baseaddrs \<Rightarrow>
             for_each (\<lambda>(block_type, (baseaddr, offset)).
                 for_each (add_bits_tile baseaddr offset) (s_tiles segment))
               baseaddrs database))"

definition add_bits :: "database \<Rightarrow> segments \<Rightarrow> error + database" where
  "add_bits database segments = for_each add_bits_segment segments database"

definition annotate_tile :: "segments \<Rightarrow> string \<times> tile \<Rightarrow> error + string \<times> tile" where
  "annotate_tile segments item =
     (case item of (tile_name, tiledata) \<Rightarrow>
        (case t_segment tiledata of
           None \<Rightarrow> Inr (tile_name, tiledata)
         | Some segment \<Rightarrow>
             (case map_of segments segment of
                None \<Rightarrow> Inl KeyError
              | Some sd \<Rightarrow>
                  Inr (tile_name,
                       tiledata\<lparr>t_frames := Some (s_frames sd), t_words := Some (s_words sd),
                                t_segment_type := Some (s_type sd)\<rparr>))))"

fun annotate_segments :: "database \<Rightarrow> segments \<Rightarrow> error + database" where
  "annotate_segments [] segments = Inr []"
| "annotate_segments (item # database) segments =
     (case annotate_tile segments item of
        Inl e \<Rightarrow> Inl e
      | Inr item' \<Rightarrow>
          (case annotate_segments database segments of
             Inl e \<Rightarrow> Inl e
           | Inr database' \<Rightarrow> Inr (item' # database')))"

subsection \<open>The pipeline\<close>

text \<open>
  \<^verbatim>\<open>run\<close> between loading its inputs and writing the JSON: from the tile list and the
  measured site addresses to the final database.
\<close>

definition run :: "tile_in list \<Rightarrow> (string \<times> int) list \<Rightarrow> error + database" where
  "run tiles site_baseaddr =
     (let database = make_database tiles in
      case make_tile_baseaddrs tiles site_baseaddr of
        Inl e \<Rightarrow> Inl e
      | Inr tile_baseaddrs \<Rightarrow>
          (let tiles_by_grid = make_tiles_by_grid tiles in
           case make_segments database tiles_by_grid tile_baseaddrs of
             Inl e \<Rightarrow> Inl e
           | Inr (database1, segments) \<Rightarrow>
               (case seg_base_addr_lr_INT database1 segments tiles_by_grid of
                  Inl e \<Rightarrow> Inl e
                | Inr segments1 \<Rightarrow>
                    (case seg_base_addr_up_INT database1 segments1 tiles_by_grid of
                       Inl e \<Rightarrow> Inl e
                     | Inr segments2 \<Rightarrow>
                         (case add_bits database1 segments2 of
                            Inl e \<Rightarrow> Inl e
                          | Inr database2 \<Rightarrow> annotate_segments database2 segments2)))))"

subsection \<open>Specification-side notions\<close>

text \<open>
  The block-type code as the specification words it: the number formed by bits 23 to 25
  of a frame address. It is compared below with what \<^const>\<open>addr2btype\<close> computes by
  shifting and masking.
\<close>

definition block_code :: "int \<Rightarrow> int" where
  "block_code a = (a div 2 ^ 23) mod 8"

text \<open>
  What \<^verbatim>\<open>add_segment\<close> stores for its \<^verbatim>\<open>baseaddr\<close> argument: the measured dict of the
  tile when there is one (and it is not empty), otherwise no key.
\<close>

definition seed_of :: "baseaddrs option \<Rightarrow> baseaddrs option" where
  "seed_of b = (if b = Some [] then None else b)"

text \<open>
  The segment names of the BRAM/DSP rule as the specification words them: \<open>k\<close> spliced
  in at the end of the first underscore-delimited token, that is, in front of the first
  underscore. It is compared below with the \<^verbatim>\<open>replace("_", "%d_" % k, 1)\<close> of the code.
\<close>

definition splice :: "nat \<Rightarrow> string \<Rightarrow> string" where
  "splice k s =
     takeWhile (\<lambda>c. c \<noteq> CHR ''_'') s @ dec k @ dropWhile (\<lambda>c. c \<noteq> CHR ''_'') s"

subsection \<open>Example inputs\<close>

text \<open>
  A BRAM tile with its five interface and interconnect tiles to the right, named as in
  the comment of \<^verbatim>\<open>process_bram_dsp\<close> (\<^verbatim>\<open>BRAM_L_X6Y70 => SEG_BRAM4_L_X6Y70\<close>).
\<close>

definition ex6_bram :: tile where
  "ex6_bram = \<lparr>t_type = ''BRAM_L'', t_sites = [(''RAMB36_X0Y14'', ''RAMB36E1'')],
      t_grid_x = 0, t_grid_y = 4, t_segment = None, t_bits = None, t_frames = None,
      t_words = None, t_segment_type = None\<rparr>"

definition plain_tile :: "string \<Rightarrow> int \<Rightarrow> int \<Rightarrow> tile" where
  "plain_tile ty x y = \<lparr>t_type = ty, t_sites = [],
      t_grid_x = x, t_grid_y = y, t_segment = None, t_bits = None, t_frames = None,
      t_words = None, t_segment_type = None\<rparr>"

definition ex6_itf :: "nat \<Rightarrow> string" where
  "ex6_itf k = ''BRAM_INT_INTERFACE_L_X6Y7'' @ dec k"

definition ex6_int :: "nat \<Rightarrow> string" where
  "ex6_int k = ''INT_L_X6Y7'' @ dec k"

definition ex6_db :: database where
  "ex6_db = (''BRAM_L_X6Y70'', ex6_bram) #
     concat (map (\<lambda>k. [(ex6_itf k, plain_tile ''BRAM_INT_INTERFACE_L'' 1 (4 - int k)),
                        (ex6_int k, plain_tile ''INT_L'' 2 (4 - int k))]) [0, 1, 2, 3, 4])"

definition ex6_grid :: tiles_by_grid where
  "ex6_grid = ((0, 4), ''BRAM_L_X6Y70'') #
     concat (map (\<lambda>k. [((1, 4 - int k), ex6_itf k), ((2, 4 - int k), ex6_int k)])
               [0, 1, 2, 3, 4])"

definition ex6_tba :: "(string \<times> baseaddrs) list" where
  "ex6_tba = [(''BRAM_L_X6Y70'', [(''BLOCK_RAM'', (0x00800000, 0))])]"

text \<open>A left CLB tile with its interconnect tile, and a clock-row tile above it.\<close>

definition ex7_clb :: tile where
  "ex7_clb = \<lparr>t_type = ''CLBLL_L'',
      t_sites = [(''SLICE_X0Y50'', ''SLICEL''), (''SLICE_X1Y50'', ''SLICEL'')],
      t_grid_x = 0, t_grid_y = 1, t_segment = None, t_bits = None, t_frames = None,
      t_words = None, t_segment_type = None\<rparr>"

definition ex7_db :: database where
  "ex7_db = [(''CLBLL_L_X2Y50'', ex7_clb), (''INT_L_X2Y50'', plain_tile ''INT_L'' 1 1),
             (''HCLK_L_X5Y51'', plain_tile ''HCLK_L'' 1 0)]"

definition ex7_grid :: tiles_by_grid where
  "ex7_grid = [((0, 1), ''CLBLL_L_X2Y50''), ((1, 1), ''INT_L_X2Y50''),
               ((1, 0), ''HCLK_L_X5Y51'')]"

definition ex7_tba :: "(string \<times> baseaddrs) list" where
  "ex7_tba = [(''CLBLL_L_X2Y50'', [(''CLB_IO_CLK'', (0x00020000, 0))])]"

text \<open>
  The names of the segments whose tile list holds a tile, in creation order, and the
  invariant of segment construction: segment names are unique, and every listed tile
  records the segment that listed it last.
\<close>

definition listing :: "segments \<Rightarrow> string \<Rightarrow> string list" where
  "listing segments tile_name =
     map fst (filter (\<lambda>(name, segment). tile_name \<in> set (s_tiles segment)) segments)"

definition owners_ok :: "database \<times> segments \<Rightarrow> bool" where
  "owners_ok st =
     (case st of (database, segments) \<Rightarrow>
        distinct (map fst segments) \<and>
        (\<forall>t. listing segments t \<noteq> [] \<longrightarrow>
           (\<exists>td. map_of database t = Some td \<and>
                 t_segment td = Some (last (listing segments t)))))"

text \<open>
  A left and a right CLB tile on both sides of one interconnect tile, and what
  \<^verbatim>\<open>make_segments\<close> returns for them.
\<close>

definition ex9_tiles :: "tile_in list" where
  "ex9_tiles =
     [\<lparr>i_type = ''CLBLL_L'', i_name = ''CLBLL_L_X2Y50'', i_grid_x = 0, i_grid_y = 0,
       i_sites = [(''SLICE_X0Y50'', ''SLICEL'')]\<rparr>,
      \<lparr>i_type = ''INT_L'', i_name = ''INT_L_X2Y50'', i_grid_x = 1, i_grid_y = 0,
       i_sites = []\<rparr>,
      \<lparr>i_type = ''CLBLL_R'', i_name = ''CLBLL_R_X3Y50'', i_grid_x = 2, i_grid_y = 0,
       i_sites = [(''SLICE_X2Y50'', ''SLICEL'')]\<rparr>]"

definition ex9_database :: database where
  "ex9_database =
     [(''CLBLL_L_X2Y50'',
       \<lparr>t_type = ''CLBLL_L'', t_sites = [(''SLICE_X0Y50'', ''SLICEL'')], t_grid_x = 0,
        t_grid_y = 0, t_segment = Some ''SEG_CLBLL_L_X2Y50'', t_bits = None,
        t_frames = None, t_words = None, t_segment_type = None\<rparr>),
      (''INT_L_X2Y50'',
       \<lparr>t_type = ''INT_L'', t_sites = [], t_grid_x = 1,
        t_grid_y = 0, t_segment = Some ''SEG_CLBLL_R_X3Y50'', t_bits = None,
        t_frames = None, t_words = None, t_segment_type = None\<rparr>),
      (''CLBLL_R_X3Y50'',
       \<lparr>t_type = ''CLBLL_R'', t_sites = [(''SLICE_X2Y50'', ''SLICEL'')], t_grid_x = 2,
        t_grid_y = 0, t_segment = Some ''SEG_CLBLL_R_X3Y50'', t_bits = None,
        t_frames = None, t_words = None, t_segment_type = None\<rparr>)]"

definition ex9_segments :: segments where
  "ex9_segments =
     [(''SEG_CLBLL_L_X2Y50'',
       \<lparr>s_tiles = [''CLBLL_L_X2Y50'', ''INT_L_X2Y50''], s_type = ''clbll_l'',
        s_frames = 36, s_words = 2, s_baseaddr = None\<rparr>),
      (''SEG_CLBLL_R_X3Y50'',
       \<lparr>s_tiles = [''CLBLL_R_X3Y50'', ''INT_L_X2Y50''], s_type = ''clbll_r'',
        s_frames = 36, s_words = 2, s_baseaddr = None\<rparr>)]"

text \<open>A tile list with a single clock-row tile and no measured address.\<close>

definition ex8_tiles :: "tile_in list" where
  "ex8_tiles =
     [\<lparr>i_type = ''HCLK_L'', i_name = ''HCLK_L_X5Y51'', i_grid_x = 1, i_grid_y = 0,
       i_sites = []\<rparr>]"

text \<open>The base address a segment holds for a block type, if any.\<close>

definition segment_addr :: "segments \<Rightarrow> string \<Rightarrow> block_type \<Rightarrow> (int \<times> int) option" where
  "segment_addr segments name block_type =
     (case map_of segments name of
        None \<Rightarrow> None
      | Some sd \<Rightarrow> (case s_baseaddr sd of None \<Rightarrow> None | Some d \<Rightarrow> map_of d block_type))"

text \<open>
  A later state of the segments extends an earlier one: the same names in the same order,
  the same tiles, and every base address held before is held unchanged.
\<close>

definition extends :: "segments \<Rightarrow> segments \<Rightarrow> bool" where
  "extends segs segs' \<longleftrightarrow>
     map fst segs' = map fst segs \<and>
     (\<forall>s. map_option s_tiles (map_of segs' s) = map_option s_tiles (map_of segs s)) \<and>
     (\<forall>s b v. segment_addr segs s b = Some v \<longrightarrow> segment_addr segs' s b = Some v)"

text \<open>
  A left CLB tile and a right CLB tile with their two interconnect tiles between them,
  the state after \<^verbatim>\<open>make_segments\<close> when the left tile has a measured address (and the
  same with the address on the right segment), and two other grids: one that ends at the
  left interconnect tile, and one that has the right CLB tile where the right
  interconnect tile should be.
\<close>

definition ex2_tiles :: "tile_in list" where
  "ex2_tiles =
     [\<lparr>i_type = ''CLBLL_L'', i_name = ''CLBLL_L_X2Y50'', i_grid_x = 0, i_grid_y = 0,
       i_sites = [(''SLICE_X0Y50'', ''SLICEL'')]\<rparr>,
      \<lparr>i_type = ''INT_L'', i_name = ''INT_L_X2Y50'', i_grid_x = 1, i_grid_y = 0,
       i_sites = []\<rparr>,
      \<lparr>i_type = ''INT_R'', i_name = ''INT_R_X3Y50'', i_grid_x = 2, i_grid_y = 0,
       i_sites = []\<rparr>,
      \<lparr>i_type = ''CLBLM_R'', i_name = ''CLBLM_R_X3Y50'', i_grid_x = 3, i_grid_y = 0,
       i_sites = [(''SLICE_X2Y50'', ''SLICEM'')]\<rparr>]"

definition ex2_grid :: tiles_by_grid where
  "ex2_grid = [((0, 0), ''CLBLL_L_X2Y50''), ((1, 0), ''INT_L_X2Y50''),
               ((2, 0), ''INT_R_X3Y50''), ((3, 0), ''CLBLM_R_X3Y50'')]"

definition ex2_grid_edge :: tiles_by_grid where
  "ex2_grid_edge = [((0, 0), ''CLBLL_L_X2Y50''), ((1, 0), ''INT_L_X2Y50'')]"

definition ex2_grid_bad :: tiles_by_grid where
  "ex2_grid_bad = [((0, 0), ''CLBLL_L_X2Y50''), ((1, 0), ''INT_L_X2Y50''),
                   ((2, 0), ''CLBLM_R_X3Y50'')]"

definition ex2_database :: database where
  "ex2_database =
     [(''CLBLL_L_X2Y50'',
       \<lparr>t_type = ''CLBLL_L'', t_sites = [(''SLICE_X0Y50'', ''SLICEL'')], t_grid_x = 0,
        t_grid_y = 0, t_segment = Some ''SEG_CLBLL_L_X2Y50'', t_bits = None,
        t_frames = None, t_words = None, t_segment_type = None\<rparr>),
      (''INT_L_X2Y50'',
       \<lparr>t_type = ''INT_L'', t_sites = [], t_grid_x = 1,
        t_grid_y = 0, t_segment = Some ''SEG_CLBLL_L_X2Y50'', t_bits = None,
        t_frames = None, t_words = None, t_segment_type = None\<rparr>),
      (''INT_R_X3Y50'',
       \<lparr>t_type = ''INT_R'', t_sites = [], t_grid_x = 2,
        t_grid_y = 0, t_segment = Some ''SEG_CLBLM_R_X3Y50'', t_bits = None,
        t_frames = None, t_words = None, t_segment_type = None\<rparr>),
      (''CLBLM_R_X3Y50'',
       \<lparr>t_type = ''CLBLM_R'', t_sites = [(''SLICE_X2Y50'', ''SLICEM'')], t_grid_x = 3,
        t_grid_y = 0, t_segment = Some ''SEG_CLBLM_R_X3Y50'', t_bits = None,
        t_frames = None, t_words = None, t_segment_type = None\<rparr>)]"

definition ex2_seg_l :: "baseaddrs option \<Rightarrow> segment" where
  "ex2_seg_l b = \<lparr>s_tiles = [''CLBLL_L_X2Y50'', ''INT_L_X2Y50''], s_type = ''clbll_l'',
        s_frames = 36, s_words = 2, s_baseaddr = b\<rparr>"

definition ex2_seg_r :: "baseaddrs option \<Rightarrow> segment" where
  "ex2_seg_r b = \<lparr>s_tiles = [''CLBLM_R_X3Y50'', ''INT_R_X3Y50''], s_type = ''clblm_r'',
        s_frames = 36, s_words = 2, s_baseaddr = b\<rparr>"

definition ex2_segments :: segments where
  "ex2_segments =
     [(''SEG_CLBLL_L_X2Y50'', ex2_seg_l (Some [(''CLB_IO_CLK'', (0x00400000, 0))])),
      (''SEG_CLBLM_R_X3Y50'', ex2_seg_r None)]"

definition ex2_segments_r :: segments where
  "ex2_segments_r =
     [(''SEG_CLBLL_L_X2Y50'', ex2_seg_l None),
      (''SEG_CLBLM_R_X3Y50'', ex2_seg_r (Some [(''CLB_IO_CLK'', (0x00400080, 0))]))]"

subsection \<open>Notions for the vertical pass\<close>

text \<open>
  The segment that owns the tile at a grid coordinate: what
  \<^verbatim>\<open>database[tiles_by_grid[(x, y)]]["segment"]\<close> reads, \<open>None\<close> where one of the three
  lookups fails.
\<close>

definition owner_at :: "database \<Rightarrow> tiles_by_grid \<Rightarrow> int \<Rightarrow> int \<Rightarrow> string option" where
  "owner_at database tiles_by_grid x y =
     (case map_of tiles_by_grid (x, y) of
        None \<Rightarrow> None
      | Some t \<Rightarrow> (case map_of database t of None \<Rightarrow> None | Some td \<Rightarrow> t_segment td))"

text \<open>The word offset after \<open>i\<close> steps of a walk that starts at \<open>wordbase\<close>.\<close>

definition word_at :: "nat \<Rightarrow> int \<Rightarrow> int" where
  "word_at i wordbase = (next_wordbase ^^ i) wordbase"

text \<open>
  A column of 52 rows with its segments: in row \<open>j\<close> (counted from the bottom, at
  \<open>grid_y = 51 - j\<close>) the CLB tile \<^verbatim>\<open>CLBLL_L_X0Yj\<close> at \<open>x = 0\<close> and the
  interconnect tile \<^verbatim>\<open>INT_L_X0Yj\<close> at \<open>x = 1\<close>, both in segment \<^verbatim>\<open>SEG_CLBLL_L_X0Yj\<close>.
  The base addresses of row \<open>j\<close> are \<open>seed j\<close>.
\<close>

definition col_cname :: "nat \<Rightarrow> string" where
  "col_cname j = ''CLBLL_L_X0Y'' @ dec j"

definition col_iname :: "nat \<Rightarrow> string" where
  "col_iname j = ''INT_L_X0Y'' @ dec j"

definition col_sname :: "nat \<Rightarrow> string" where
  "col_sname j = ''SEG_'' @ col_cname j"

definition col_clb :: "nat \<Rightarrow> tile" where
  "col_clb j = \<lparr>t_type = ''CLBLL_L'', t_sites = [(''SLICE_X0Y'' @ dec j, ''SLICEL'')],
      t_grid_x = 0, t_grid_y = 51 - int j, t_segment = Some (col_sname j), t_bits = None,
      t_frames = None, t_words = None, t_segment_type = None\<rparr>"

definition col_int :: "nat \<Rightarrow> tile" where
  "col_int j = \<lparr>t_type = ''INT_L'', t_sites = [],
      t_grid_x = 1, t_grid_y = 51 - int j, t_segment = Some (col_sname j), t_bits = None,
      t_frames = None, t_words = None, t_segment_type = None\<rparr>"

definition col_database :: database where
  "col_database = map (\<lambda>j. (col_cname j, col_clb j)) [0..<52] @
                  map (\<lambda>j. (col_iname j, col_int j)) [0..<52]"

definition col_grid :: tiles_by_grid where
  "col_grid = map (\<lambda>j. ((0, 51 - int j), col_cname j)) [0..<52] @
              map (\<lambda>j. ((1, 51 - int j), col_iname j)) [0..<52]"

definition col_segment :: "(nat \<Rightarrow> baseaddrs option) \<Rightarrow> nat \<Rightarrow> segment" where
  "col_segment seed j = \<lparr>s_tiles = [col_cname j, col_iname j], s_type = ''clbll_l'',
      s_frames = 36, s_words = 2, s_baseaddr = seed j\<rparr>"

definition col_segments :: "(nat \<Rightarrow> baseaddrs option) \<Rightarrow> segments" where
  "col_segments seed = map (\<lambda>j. (col_sname j, col_segment seed j)) [0..<52]"

text \<open>The base addresses of every segment are a dict: no block type occurs twice.\<close>

definition distinct_keys :: "segments \<Rightarrow> bool" where
  "distinct_keys segs \<longleftrightarrow>
     (\<forall>s sd b. map_of segs s = Some sd \<and> s_baseaddr sd = Some b \<longrightarrow> distinct (map fst b))"

text \<open>The base address a segment holds in the result of a pass, or the error of the pass.\<close>

definition result_addr ::
  "error + segments \<Rightarrow> string \<Rightarrow> block_type \<Rightarrow> error + (int \<times> int) option" where
  "result_addr r name block_type =
     (case r of Inl e \<Rightarrow> Inl e | Inr segs \<Rightarrow> Inr (segment_addr segs name block_type))"

text \<open>
  The bottom row holds the \<^verbatim>\<open>CLB_IO_CLK\<close> address \<open>(0x00400000, 0)\<close>, the row above it
  holds the base addresses \<open>b\<close>, the other rows have no \<^verbatim>\<open>baseaddr\<close> key.
\<close>

definition col_seed :: "baseaddrs \<Rightarrow> nat \<Rightarrow> baseaddrs option" where
  "col_seed b j =
     (if j = 0 then Some [(''CLB_IO_CLK'', (0x00400000, 0))]
      else if j = 1 then Some b else None)"

text \<open>The two segments of the lateral example after the lateral pass.\<close>

definition ex2_segments_out :: segments where
  "ex2_segments_out =
     [(''SEG_CLBLL_L_X2Y50'', ex2_seg_l (Some [(''CLB_IO_CLK'', (0x00400000, 0))])),
      (''SEG_CLBLM_R_X3Y50'', ex2_seg_r (Some [(''CLB_IO_CLK'', (0x00400080, 0))]))]"

section \<open>Block-type classification\<close>

lemma and_7_mod: "(x::int) AND 7 = x mod 8"
proof -
  have "x AND 7 = x AND mask 3" by (simp add: mask_eq_exp_minus_1)
  also have "\<dots> = take_bit 3 x" by (simp add: take_bit_eq_mask)
  also have "\<dots> = x mod 8" by (simp add: take_bit_eq_mod)
  finally show ?thesis .
qed

lemma block_code_range: "0 \<le> block_code a \<and> block_code a \<le> 7"
  by (simp add: block_code_def)

lemma addr2btype_code:
  "addr2btype a =
     (case map_of block_type_i2s (block_code a) of None \<Rightarrow> Inl KeyError | Some s \<Rightarrow> Inr s)"
  by (simp add: addr2btype_def block_code_def and_7_mod drop_bit_eq_div)

text \<open>
  Claim C5. For every frame address, \<^const>\<open>addr2btype\<close> reads the code in bits 23 to 25
  and returns \<^verbatim>\<open>CLB_IO_CLK\<close> for code 0, \<^verbatim>\<open>BLOCK_RAM\<close> for code 1 and \<^verbatim>\<open>CFG_CLB\<close> for
  code 2; for the codes 3 to 7 it raises (the \<^verbatim>\<open>KeyError\<close> of the table lookup) and returns
  no default. The code is always one of 0 to 7, so the four cases cover every address.
\<close>

theorem addr2btype_classifies:
  "(block_code a = 0 \<longrightarrow> addr2btype a = Inr ''CLB_IO_CLK'') \<and>
   (block_code a = 1 \<longrightarrow> addr2btype a = Inr ''BLOCK_RAM'') \<and>
   (block_code a = 2 \<longrightarrow> addr2btype a = Inr ''CFG_CLB'') \<and>
   (3 \<le> block_code a \<and> block_code a \<le> 7 \<longrightarrow> addr2btype a = Inl KeyError) \<and>
   0 \<le> block_code a \<and> block_code a \<le> 7 \<and>
   bit (block_code a) 0 = bit a 23 \<and>
   bit (block_code a) 1 = bit a 24 \<and>
   bit (block_code a) 2 = bit a 25"
proof -
  have r: "0 \<le> block_code a \<and> block_code a \<le> 7"
    by (rule block_code_range)
  have b: "block_code a = take_bit 3 (drop_bit 23 a)"
    by (simp add: block_code_def take_bit_eq_mod drop_bit_eq_div)
  have bits: "bit (block_code a) 0 = bit a 23 \<and> bit (block_code a) 1 = bit a 24
      \<and> bit (block_code a) 2 = bit a 25"
    unfolding b by (simp add: bit_take_bit_iff bit_drop_bit_eq)
  show ?thesis using r bits
    by (auto simp add: addr2btype_code block_type_i2s_def)
qed

theorem addr2btype_classifies_witness:
  "addr2btype 0x00020000 = Inr ''CLB_IO_CLK'' \<and> addr2btype 0x00800080 = Inr ''BLOCK_RAM'' \<and>
   addr2btype 0x01000000 = Inr ''CFG_CLB'' \<and> addr2btype 0x01800000 = Inl KeyError \<and>
   addr2btype 0x03800000 = Inl KeyError"
  using addr2btype_classifies [of "0x00020000"] addr2btype_classifies [of "0x00800080"]
    addr2btype_classifies [of "0x01000000"] addr2btype_classifies [of "0x01800000"]
    addr2btype_classifies [of "0x03800000"]
  by (simp add: block_code_def)

section \<open>Segment construction\<close>

subsection \<open>Adding a segment\<close>

lemma update_fresh: "k \<notin> fst ` set al \<Longrightarrow> AList.update k v al = al @ [(k, v)]"
  by (induction al) auto

lemma update_keys_present: "k \<in> fst ` set al \<Longrightarrow> map fst (AList.update k v al) = map fst al"
  by (induction al) auto

lemma set_segment_Inr:
  "set_segment name t db = Inr db' \<longleftrightarrow>
     (\<exists>td. map_of db t = Some td \<and> db' = AList.update t (td\<lparr>t_segment := Some name\<rparr>) db)"
  by (auto simp: set_segment_def split: option.splits)

lemma in_keys_map_of: "k \<in> fst ` set al \<longleftrightarrow> map_of al k \<noteq> None"
  by (simp add: map_of_eq_None_iff)

lemma for_each_set_segment_Inr:
  "for_each (set_segment name) tiles db = Inr db' \<Longrightarrow>
     set tiles \<subseteq> fst ` set db \<and> map fst db' = map fst db \<and>
     (\<forall>t. map_of db' t =
        (if t \<in> set tiles then map_option (\<lambda>td. td\<lparr>t_segment := Some name\<rparr>) (map_of db t)
         else map_of db t))"
proof (induction tiles arbitrary: db)
  case Nil
  then show ?case by simp
next
  case (Cons a tiles)
  from Cons.prems obtain db1 where s1: "set_segment name a db = Inr db1"
    and r: "for_each (set_segment name) tiles db1 = Inr db'"
    by (auto split: sum.splits)
  from s1 obtain td where td: "map_of db a = Some td"
    and db1: "db1 = AList.update a (td\<lparr>t_segment := Some name\<rparr>) db"
    by (auto simp: set_segment_Inr)
  have a_in: "a \<in> fst ` set db" using td by (simp add: in_keys_map_of)
  have k1: "map fst db1 = map fst db" using a_in db1 by (simp add: update_keys_present)
  have m1: "map_of db1 = (map_of db)(a \<mapsto> td\<lparr>t_segment := Some name\<rparr>)"
    using db1 by (simp add: update_conv')
  from Cons.IH [OF r] have ih: "set tiles \<subseteq> fst ` set db1" "map fst db' = map fst db1"
    "\<And>t. map_of db' t =
        (if t \<in> set tiles then map_option (\<lambda>td. td\<lparr>t_segment := Some name\<rparr>) (map_of db1 t)
         else map_of db1 t)" by auto
  have keys1: "fst ` set db1 = fst ` set db" using k1 by (metis set_map)
  show ?case
    using ih(1) ih(2) a_in k1 keys1 td by (auto simp: ih(3) m1)
qed

lemma for_each_set_segment_total:
  "set tiles \<subseteq> fst ` set db \<Longrightarrow> \<exists>db'. for_each (set_segment name) tiles db = Inr db'"
proof (induction tiles arbitrary: db)
  case Nil
  then show ?case by simp
next
  case (Cons a tiles)
  then obtain td where td: "map_of db a = Some td"
    by (auto simp: in_keys_map_of)
  let ?db1 = "AList.update a (td\<lparr>t_segment := Some name\<rparr>) db"
  have s1: "set_segment name a db = Inr ?db1" using td by (simp add: set_segment_def)
  have "a \<in> fst ` set db" using Cons.prems by simp
  then have "map fst ?db1 = map fst db" by (simp add: update_keys_present)
  then have "fst ` set ?db1 = fst ` set db" by (metis set_map)
  with Cons.prems have "set tiles \<subseteq> fst ` set ?db1" by simp
  from Cons.IH [OF this] show ?case using s1 by simp
qed

lemma add_segment_Inr:
  "add_segment name tiles segtype frames words baseaddr (db, segs) = Inr (db', segs') \<longleftrightarrow>
     name \<notin> fst ` set segs \<and> for_each (set_segment name) tiles db = Inr db' \<and>
     segs' = segs @ [(name, \<lparr>s_tiles = tiles, s_type = segtype, s_frames = frames,
                             s_words = words, s_baseaddr = seed_of baseaddr\<rparr>)]"
proof -
  have e: "(case baseaddr of Some (e # es) \<Rightarrow> Some (e # es) | _ \<Rightarrow> None) = seed_of baseaddr"
    by (auto simp: seed_of_def split: option.splits list.splits)
  show ?thesis
    unfolding add_segment_def e
    by (auto simp: update_fresh Let_def split: sum.splits)
qed

lemma add_segment_total:
  assumes "name \<notin> fst ` set segs" "set tiles \<subseteq> fst ` set db"
  shows "\<exists>db'. add_segment name tiles segtype frames words baseaddr (db, segs) =
           Inr (db', segs @ [(name, \<lparr>s_tiles = tiles, s_type = segtype, s_frames = frames,
                                     s_words = words, s_baseaddr = seed_of baseaddr\<rparr>)]) \<and>
           map fst db' = map fst db \<and>
           (\<forall>t. map_of db' t =
              (if t \<in> set tiles
               then map_option (\<lambda>td. td\<lparr>t_segment := Some name\<rparr>) (map_of db t)
               else map_of db t))"
proof -
  from for_each_set_segment_total [OF assms(2)] obtain db'
    where r: "for_each (set_segment name) tiles db = Inr db'" by blast
  from for_each_set_segment_Inr [OF r] assms(1) r show ?thesis
    by (auto simp: add_segment_Inr)
qed

text \<open>
  Claim C7. For a CLB tile of the left variant (\<^verbatim>\<open>CLBLL_L\<close>, \<^verbatim>\<open>CLBLM_L\<close>) the dispatch of
  \<^verbatim>\<open>make_segments\<close> creates one segment \<^verbatim>\<open>SEG_<tile>\<close> whose tiles are the tile and the
  tile at \<open>(x + 1, y)\<close>, for the right variant the tile at \<open>(x - 1, y)\<close>, with 36 frames
  and 2 words, seeded with the tile's measured base addresses when there are any. For a
  tile of the HCLK family it creates a segment of that tile alone, with 26 frames, 1 word
  and no base address. The segment is appended to the segments, and the member tiles
  record it as their owner. The hypotheses are the ones under which the code does not
  raise: the neighbour coordinate is in the grid, the segment name is new, and the member
  tiles are in the database.
\<close>

theorem process_tile_clb_hclk:
  "(((t_type td = ''CLBLL_L'' \<or> t_type td = ''CLBLM_L'') \<and>
       map_of grid (t_grid_x td + 1, t_grid_y td) = Some int_tile
     \<or> (t_type td = ''CLBLL_R'' \<or> t_type td = ''CLBLM_R'') \<and>
       map_of grid (t_grid_x td - 1, t_grid_y td) = Some int_tile) \<and>
    ''SEG_'' @ name \<notin> fst ` set segs \<and> name \<in> fst ` set db \<and> int_tile \<in> fst ` set db
    \<longrightarrow>
    (\<exists>db'. process_tile grid tba (name, td) (db, segs) =
        Inr (db', segs @ [(''SEG_'' @ name,
                           \<lparr>s_tiles = [name, int_tile], s_type = lower (t_type td),
                            s_frames = 36, s_words = 2,
                            s_baseaddr = seed_of (map_of tba name)\<rparr>)]) \<and>
        map fst db' = map fst db \<and>
        (\<forall>t. map_of db' t =
           (if t = name \<or> t = int_tile
            then map_option (\<lambda>x. x\<lparr>t_segment := Some (''SEG_'' @ name)\<rparr>) (map_of db t)
            else map_of db t)))) \<and>
   (nolr (t_type td) = ''HCLK'' \<and>
    ''SEG_'' @ name \<notin> fst ` set segs \<and> name \<in> fst ` set db
    \<longrightarrow>
    (\<exists>db'. process_tile grid tba (name, td) (db, segs) =
        Inr (db', segs @ [(''SEG_'' @ name,
                           \<lparr>s_tiles = [name], s_type = lower (t_type td),
                            s_frames = 26, s_words = 1, s_baseaddr = None\<rparr>)]) \<and>
        map fst db' = map fst db \<and>
        (\<forall>t. map_of db' t =
           (if t = name
            then map_option (\<lambda>x. x\<lparr>t_segment := Some (''SEG_'' @ name)\<rparr>) (map_of db t)
            else map_of db t))))"
proof (intro conjI impI)
  assume a: "((t_type td = ''CLBLL_L'' \<or> t_type td = ''CLBLM_L'') \<and>
       map_of grid (t_grid_x td + 1, t_grid_y td) = Some int_tile
     \<or> (t_type td = ''CLBLL_R'' \<or> t_type td = ''CLBLM_R'') \<and>
       map_of grid (t_grid_x td - 1, t_grid_y td) = Some int_tile) \<and>
    ''SEG_'' @ name \<notin> fst ` set segs \<and> name \<in> fst ` set db \<and> int_tile \<in> fst ` set db"
  then have fresh: "''SEG_'' @ name \<notin> fst ` set segs"
    and sub: "set [name, int_tile] \<subseteq> fst ` set db" by auto
  have disp: "process_tile grid tba (name, td) (db, segs) =
      add_segment (''SEG_'' @ name) [name, int_tile] (lower (t_type td)) 36 2
        (map_of tba name) (db, segs)"
    using a by (auto simp: process_tile_def process_clb_def nolr_def)
  from add_segment_total [OF fresh sub, of "lower (t_type td)" 36 2 "map_of tba name"]
  show "\<exists>db'. process_tile grid tba (name, td) (db, segs) =
        Inr (db', segs @ [(''SEG_'' @ name,
                           \<lparr>s_tiles = [name, int_tile], s_type = lower (t_type td),
                            s_frames = 36, s_words = 2,
                            s_baseaddr = seed_of (map_of tba name)\<rparr>)]) \<and>
        map fst db' = map fst db \<and>
        (\<forall>t. map_of db' t =
           (if t = name \<or> t = int_tile
            then map_option (\<lambda>x. x\<lparr>t_segment := Some (''SEG_'' @ name)\<rparr>) (map_of db t)
            else map_of db t))"
    unfolding disp by simp
next
  assume a: "nolr (t_type td) = ''HCLK'' \<and>
    ''SEG_'' @ name \<notin> fst ` set segs \<and> name \<in> fst ` set db"
  then have fresh: "''SEG_'' @ name \<notin> fst ` set segs"
    and sub: "set [name] \<subseteq> fst ` set db" by auto
  have disp: "process_tile grid tba (name, td) (db, segs) =
      add_segment (''SEG_'' @ name) [name] (lower (t_type td)) 26 1 None (db, segs)"
    using a by (simp add: process_tile_def process_hclk_def)
  from add_segment_total [OF fresh sub, of "lower (t_type td)" 26 1 None]
  show "\<exists>db'. process_tile grid tba (name, td) (db, segs) =
        Inr (db', segs @ [(''SEG_'' @ name,
                           \<lparr>s_tiles = [name], s_type = lower (t_type td),
                            s_frames = 26, s_words = 1, s_baseaddr = None\<rparr>)]) \<and>
        map fst db' = map fst db \<and>
        (\<forall>t. map_of db' t =
           (if t = name
            then map_option (\<lambda>x. x\<lparr>t_segment := Some (''SEG_'' @ name)\<rparr>) (map_of db t)
            else map_of db t))"
    unfolding disp by (simp add: seed_of_def)
qed

theorem process_tile_clb_hclk_witness:
  "(\<exists>db'. process_tile ex7_grid ex7_tba (''CLBLL_L_X2Y50'', ex7_clb) (ex7_db, []) =
      Inr (db', [(''SEG_CLBLL_L_X2Y50'',
                  \<lparr>s_tiles = [''CLBLL_L_X2Y50'', ''INT_L_X2Y50''], s_type = ''clbll_l'',
                   s_frames = 36, s_words = 2,
                   s_baseaddr = Some [(''CLB_IO_CLK'', (0x00020000, 0))]\<rparr>)]) \<and>
      map fst db' = [''CLBLL_L_X2Y50'', ''INT_L_X2Y50'', ''HCLK_L_X5Y51''] \<and>
      (\<forall>t. map_of db' t =
         (if t = ''CLBLL_L_X2Y50'' \<or> t = ''INT_L_X2Y50''
          then map_option (\<lambda>x. x\<lparr>t_segment := Some (''SEG_'' @ ''CLBLL_L_X2Y50'')\<rparr>)
                 (map_of ex7_db t)
          else map_of ex7_db t))) \<and>
   (\<exists>db'. process_tile ex7_grid ex7_tba (''HCLK_L_X5Y51'', plain_tile ''HCLK_L'' 1 0)
        (ex7_db, []) =
      Inr (db', [(''SEG_HCLK_L_X5Y51'',
                  \<lparr>s_tiles = [''HCLK_L_X5Y51''], s_type = ''hclk_l'',
                   s_frames = 26, s_words = 1, s_baseaddr = None\<rparr>)]) \<and>
      map fst db' = [''CLBLL_L_X2Y50'', ''INT_L_X2Y50'', ''HCLK_L_X5Y51''] \<and>
      (\<forall>t. map_of db' t =
         (if t = ''HCLK_L_X5Y51''
          then map_option (\<lambda>x. x\<lparr>t_segment := Some (''SEG_'' @ ''HCLK_L_X5Y51'')\<rparr>)
                 (map_of ex7_db t)
          else map_of ex7_db t)))"
  using process_tile_clb_hclk [of ex7_clb ex7_grid "''INT_L_X2Y50''" "''CLBLL_L_X2Y50''"
      "[]" ex7_db ex7_tba]
    process_tile_clb_hclk [of "plain_tile ''HCLK_L'' 1 0" ex7_grid "''INT_L_X2Y50''"
      "''HCLK_L_X5Y51''" "[]" ex7_db ex7_tba]
  by (simp add: ex7_clb_def ex7_db_def ex7_grid_def ex7_tba_def plain_tile_def seed_of_def
      nolr_def lower_def lower_char_def char_of_def bit_Suc_0_iff)

subsection \<open>The BRAM and DSP rule\<close>

lemma replace_first_underscore_splice:
  "CHR ''_'' \<in> set s \<Longrightarrow> replace_first_underscore (dec k @ ''_'') s = splice k s"
  by (induction s) (auto simp: splice_def)

lemma splice_token:
  "CHR ''_'' \<notin> set p \<Longrightarrow> splice k (p @ CHR ''_'' # r) = p @ dec k @ CHR ''_'' # r"
  by (induction p) (auto simp: splice_def)

lemma dec_digit: "k < 10 \<Longrightarrow> dec k = [digit_char k]"
  by (simp add: dec.simps)

lemma splice_inj_5:
  assumes "j < 5" "k < 5" "splice j s = splice k s"
  shows "j = k"
proof -
  have d: "dec j = dec k" using assms(3) by (simp add: splice_def)
  have "j \<in> {0, 1, 2, 3, 4}" "k \<in> {0, 1, 2, 3, 4}" using assms(1,2) by auto
  with d show ?thesis
    by (auto simp: dec_digit digit_char_def)
qed

lemma bram_dsp_loop:
  assumes ty: "(ty = ''BRAM_L'' \<or> ty = ''DSP_L'') \<and> d = 1
            \<or> (ty = ''BRAM_R'' \<or> ty = ''DSP_R'') \<and> d = - 1"
    and us: "CHR ''_'' \<in> set name"
  shows "(\<forall>k \<in> set ks. map_of grid (x + d, y - int k) = Some (itf k) \<and>
              map_of grid (x + 2 * d, y - int k) = Some (itl k) \<and>
              itf k \<in> fst ` set db \<and> itl k \<in> fst ` set db \<and>
              ''SEG_'' @ splice k name \<notin> fst ` set segs) \<Longrightarrow>
         name \<in> fst ` set db \<Longrightarrow> distinct (map (\<lambda>k. splice k name) ks) \<Longrightarrow>
         \<exists>db'. for_each (bram_dsp_k grid tba name ty x y) ks (db, segs) =
           Inr (db', segs @ map (\<lambda>k. (''SEG_'' @ splice k name,
                  \<lparr>s_tiles = (if k = 0 then [name, itf k, itl k] else [itf k, itl k]),
                   s_type = splice k (lower ty), s_frames = 28, s_words = 2,
                   s_baseaddr = (if k = 0 then seed_of (map_of tba name) else None)\<rparr>)) ks)
           \<and> map fst db' = map fst db"
proof (induction ks arbitrary: db segs)
  case Nil
  then show ?case by simp
next
  case (Cons k ks)
  let ?rec = "\<lambda>k. \<lparr>s_tiles = (if k = 0 then [name, itf k, itl k] else [itf k, itl k]),
                   s_type = splice k (lower ty), s_frames = 28, s_words = 2,
                   s_baseaddr = (if k = 0 then seed_of (map_of tba name) else None)\<rparr>"
  let ?tiles = "if k = 0 then [name, itf k, itl k] else [itf k, itl k]"
  have g: "map_of grid (x + d, y - int k) = Some (itf k)"
      "map_of grid (x + 2 * d, y - int k) = Some (itl k)"
    and fresh: "''SEG_'' @ splice k name \<notin> fst ` set segs"
    and sub: "set ?tiles \<subseteq> fst ` set db"
    using Cons.prems by auto
  have ust: "CHR ''_'' \<in> set (lower ty)"
    using ty by (auto simp: lower_def lower_char_def)
  have step: "bram_dsp_k grid tba name ty x y k (db, segs) =
      add_segment (''SEG_'' @ splice k name) ?tiles (splice k (lower ty)) 28 2
        (if k = 0 then map_of tba name else None) (db, segs)"
  proof (cases "ty = ''BRAM_L'' \<or> ty = ''DSP_L''")
    case True
    with ty have d: "d = 1" by auto
    from True g us ust show ?thesis unfolding d
      by (simp add: bram_dsp_k_def replace_first_underscore_splice)
  next
    case False
    with ty have R: "ty = ''BRAM_R'' \<or> ty = ''DSP_R''" and d: "d = - 1" by auto
    from False R g us ust show ?thesis unfolding d
      by (simp add: bram_dsp_k_def replace_first_underscore_splice)
  qed
  from add_segment_total [OF fresh sub, of "splice k (lower ty)" 28 2
      "if k = 0 then map_of tba name else None"]
  obtain db1 where a1: "bram_dsp_k grid tba name ty x y k (db, segs) =
      Inr (db1, segs @ [(''SEG_'' @ splice k name, ?rec k)])"
    and k1: "map fst db1 = map fst db"
    unfolding step by (auto simp: seed_of_def)
  have keys1: "fst ` set db1 = fst ` set db" using k1 by (metis set_map)
  have nd: "\<forall>j \<in> set ks. splice j name \<noteq> splice k name"
  proof
    fix j assume "j \<in> set ks"
    then have "splice j name \<in> (\<lambda>k. splice k name) ` set ks" by (rule imageI)
    moreover have "splice k name \<notin> (\<lambda>k. splice k name) ` set ks"
      using Cons.prems(3) by simp
    ultimately show "splice j name \<noteq> splice k name" by metis
  qed
  have p1: "\<forall>j \<in> set ks. map_of grid (x + d, y - int j) = Some (itf j) \<and>
              map_of grid (x + 2 * d, y - int j) = Some (itl j) \<and>
              itf j \<in> fst ` set db1 \<and> itl j \<in> fst ` set db1 \<and>
              ''SEG_'' @ splice j name \<notin> fst ` set (segs @ [(''SEG_'' @ splice k name, ?rec k)])"
    using Cons.prems(1) keys1 nd by simp
  have p2: "name \<in> fst ` set db1" using Cons.prems keys1 by simp
  have p3: "distinct (map (\<lambda>k. splice k name) ks)" using Cons.prems by simp
  from Cons.IH [OF p1 p2 p3] obtain db' where
    r: "for_each (bram_dsp_k grid tba name ty x y) ks
          (db1, segs @ [(''SEG_'' @ splice k name, ?rec k)]) =
        Inr (db', (segs @ [(''SEG_'' @ splice k name, ?rec k)]) @
               map (\<lambda>k. (''SEG_'' @ splice k name, ?rec k)) ks)"
    and k2: "map fst db' = map fst db1" by blast
  show ?case using a1 r k1 k2 by simp
qed

lemma all_less_5: "(\<forall>k<5::nat. P k) \<longleftrightarrow> P 0 \<and> P 1 \<and> P 2 \<and> P 3 \<and> P 4"
proof
  assume "\<forall>k<5. P k"
  then show "P 0 \<and> P 1 \<and> P 2 \<and> P 3 \<and> P 4" by simp
next
  assume a: "P 0 \<and> P 1 \<and> P 2 \<and> P 3 \<and> P 4"
  show "\<forall>k<5. P k"
  proof (intro allI impI)
    fix k :: nat
    assume "k < 5"
    then have "k = 0 \<or> k = 1 \<or> k = 2 \<or> k = 3 \<or> k = 4" by arith
    with a show "P k" by auto
  qed
qed

lemma upt_0_5: "[0..<5] = [0, 1, 2, 3, 4]"
  by (simp add: upt_rec)

text \<open>
  Claim C6. For a BRAM or DSP tile with a mirror suffix, the dispatch of \<^verbatim>\<open>make_segments\<close>
  appends exactly five segments, for \<open>k = 0, ..., 4\<close>, each with 28 frames and 2 words.
  The segment for \<open>k\<close> holds the interface tile at \<open>(x + d, y - k)\<close> and the interconnect
  tile at \<open>(x + 2d, y - k)\<close>, where \<open>d = 1\<close> for the left variant and \<open>d = -1\<close> for the
  right one; the segment for \<open>k = 0\<close> also holds the anchor tile, in front, and is
  seeded with its measured base addresses, the others have none. Name and type carry
  \<open>k\<close> spliced in front of the first underscore of the tile's name and lower-cased
  type, and the five names differ. The hypotheses are the ones under which the code does
  not raise: the ten coordinates are in the grid, their tiles and the anchor are in the
  database, the five names are new, and the tile name has an underscore.
\<close>

theorem process_tile_bram_dsp:
  "((t_type td = ''BRAM_L'' \<or> t_type td = ''DSP_L'') \<and> d = 1
      \<or> (t_type td = ''BRAM_R'' \<or> t_type td = ''DSP_R'') \<and> d = - 1) \<and>
   CHR ''_'' \<in> set name \<and> name \<in> fst ` set db \<and>
   (\<forall>k<5. map_of grid (t_grid_x td + d, t_grid_y td - int k) = Some (itf k) \<and>
           map_of grid (t_grid_x td + 2 * d, t_grid_y td - int k) = Some (itl k) \<and>
           itf k \<in> fst ` set db \<and> itl k \<in> fst ` set db \<and>
           ''SEG_'' @ splice k name \<notin> fst ` set segs)
   \<longrightarrow>
   (\<exists>db'. process_tile grid tba (name, td) (db, segs) =
       Inr (db', segs @ map (\<lambda>k. (''SEG_'' @ splice k name,
              \<lparr>s_tiles = (if k = 0 then [name, itf k, itl k] else [itf k, itl k]),
               s_type = splice k (lower (t_type td)), s_frames = 28, s_words = 2,
               s_baseaddr = (if k = 0 then seed_of (map_of tba name) else None)\<rparr>))
              [0, 1, 2, 3, 4])
       \<and> map fst db' = map fst db) \<and>
   distinct (map (\<lambda>k. ''SEG_'' @ splice k name) [0, 1, 2, 3, 4])"
proof (intro impI)
  assume a: "((t_type td = ''BRAM_L'' \<or> t_type td = ''DSP_L'') \<and> d = 1
      \<or> (t_type td = ''BRAM_R'' \<or> t_type td = ''DSP_R'') \<and> d = - 1) \<and>
   CHR ''_'' \<in> set name \<and> name \<in> fst ` set db \<and>
   (\<forall>k<5. map_of grid (t_grid_x td + d, t_grid_y td - int k) = Some (itf k) \<and>
           map_of grid (t_grid_x td + 2 * d, t_grid_y td - int k) = Some (itl k) \<and>
           itf k \<in> fst ` set db \<and> itl k \<in> fst ` set db \<and>
           ''SEG_'' @ splice k name \<notin> fst ` set segs)"
  then have ty: "(t_type td = ''BRAM_L'' \<or> t_type td = ''DSP_L'') \<and> d = 1
      \<or> (t_type td = ''BRAM_R'' \<or> t_type td = ''DSP_R'') \<and> d = - 1"
    and us: "CHR ''_'' \<in> set name" and nm: "name \<in> fst ` set db" by auto
  have h: "\<forall>k \<in> set [0..<5]. map_of grid (t_grid_x td + d, t_grid_y td - int k) = Some (itf k) \<and>
           map_of grid (t_grid_x td + 2 * d, t_grid_y td - int k) = Some (itl k) \<and>
           itf k \<in> fst ` set db \<and> itl k \<in> fst ` set db \<and>
           ''SEG_'' @ splice k name \<notin> fst ` set segs"
    using a by simp
  have inj: "inj_on (\<lambda>k. splice k name) (set [0..<5])"
    by (rule inj_onI) (auto dest: splice_inj_5)
  have dist: "distinct (map (\<lambda>k. splice k name) [0..<5])"
    using inj by (simp add: distinct_map)
  have fam: "nolr (t_type td) = ''BRAM'' \<or> nolr (t_type td) = ''DSP''"
    using ty by (auto simp: nolr_def)
  have disp: "process_tile grid tba (name, td) (db, segs) =
      for_each (bram_dsp_k grid tba name (t_type td) (t_grid_x td) (t_grid_y td)) [0..<5]
        (db, segs)"
    using fam by (auto simp: process_tile_def process_bram_dsp_def)
  have d2: "distinct (map (\<lambda>k. ''SEG_'' @ splice k name) [0..<5])"
    using inj by (simp add: distinct_map inj_on_def)
  from bram_dsp_loop [OF ty us h nm dist, of tba] d2
  show "(\<exists>db'. process_tile grid tba (name, td) (db, segs) =
       Inr (db', segs @ map (\<lambda>k. (''SEG_'' @ splice k name,
              \<lparr>s_tiles = (if k = 0 then [name, itf k, itl k] else [itf k, itl k]),
               s_type = splice k (lower (t_type td)), s_frames = 28, s_words = 2,
               s_baseaddr = (if k = 0 then seed_of (map_of tba name) else None)\<rparr>))
              [0, 1, 2, 3, 4])
       \<and> map fst db' = map fst db) \<and>
   distinct (map (\<lambda>k. ''SEG_'' @ splice k name) [0, 1, 2, 3, 4])"
    unfolding disp upt_0_5 by blast
qed

theorem process_tile_bram_dsp_witness:
  "\<exists>db'. process_tile ex6_grid ex6_tba (''BRAM_L_X6Y70'', ex6_bram) (ex6_db, []) =
     Inr (db',
       [(''SEG_BRAM0_L_X6Y70'',
         \<lparr>s_tiles = [''BRAM_L_X6Y70'', ''BRAM_INT_INTERFACE_L_X6Y70'', ''INT_L_X6Y70''],
          s_type = ''bram0_l'', s_frames = 28, s_words = 2,
          s_baseaddr = Some [(''BLOCK_RAM'', (0x00800000, 0))]\<rparr>),
        (''SEG_BRAM1_L_X6Y70'',
         \<lparr>s_tiles = [''BRAM_INT_INTERFACE_L_X6Y71'', ''INT_L_X6Y71''],
          s_type = ''bram1_l'', s_frames = 28, s_words = 2, s_baseaddr = None\<rparr>),
        (''SEG_BRAM2_L_X6Y70'',
         \<lparr>s_tiles = [''BRAM_INT_INTERFACE_L_X6Y72'', ''INT_L_X6Y72''],
          s_type = ''bram2_l'', s_frames = 28, s_words = 2, s_baseaddr = None\<rparr>),
        (''SEG_BRAM3_L_X6Y70'',
         \<lparr>s_tiles = [''BRAM_INT_INTERFACE_L_X6Y73'', ''INT_L_X6Y73''],
          s_type = ''bram3_l'', s_frames = 28, s_words = 2, s_baseaddr = None\<rparr>),
        (''SEG_BRAM4_L_X6Y70'',
         \<lparr>s_tiles = [''BRAM_INT_INTERFACE_L_X6Y74'', ''INT_L_X6Y74''],
          s_type = ''bram4_l'', s_frames = 28, s_words = 2, s_baseaddr = None\<rparr>)])
     \<and> map fst db' = map fst ex6_db"
  using process_tile_bram_dsp [of ex6_bram 1 "''BRAM_L_X6Y70''" ex6_db ex6_grid ex6_itf ex6_int
      "[]" ex6_tba]
  by (simp add: all_less_5 ex6_bram_def ex6_db_def ex6_grid_def ex6_tba_def ex6_itf_def
      ex6_int_def plain_tile_def dec_digit digit_char_def splice_def seed_of_def lower_def
      lower_char_def char_of_def bit_Suc_0_iff)

subsection \<open>Owners after segment construction\<close>

lemma for_each_invariant:
  assumes step: "\<And>x s s'. I s \<Longrightarrow> body x s = Inr s' \<Longrightarrow> I s'"
  shows "I s \<Longrightarrow> for_each body xs s = Inr s' \<Longrightarrow> I s'"
proof (induction xs arbitrary: s)
  case Nil
  then show ?case by simp
next
  case (Cons x xs)
  from Cons.prems(2) obtain s1 where b: "body x s = Inr s1"
    and r: "for_each body xs s1 = Inr s'"
    by (auto split: sum.splits)
  have "I s1" using step [OF Cons.prems(1) b] .
  from Cons.IH [OF this r] show ?case .
qed

lemma add_segment_owners_ok:
  assumes ok: "owners_ok st"
    and a: "add_segment name tiles segtype frames words baseaddr st = Inr st'"
  shows "owners_ok st'"
proof -
  obtain db segs where st: "st = (db, segs)" by (cases st)
  obtain db' segs' where st': "st' = (db', segs')" by (cases st')
  let ?seg = "\<lparr>s_tiles = tiles, s_type = segtype, s_frames = frames,
                 s_words = words, s_baseaddr = seed_of baseaddr\<rparr>"
  from a have fresh: "name \<notin> fst ` set segs"
    and fe: "for_each (set_segment name) tiles db = Inr db'"
    and segs': "segs' = segs @ [(name, ?seg)]"
    unfolding st st' by (auto simp: add_segment_Inr)
  from for_each_set_segment_Inr [OF fe]
  have sub: "set tiles \<subseteq> fst ` set db"
    and m: "\<And>t. map_of db' t =
        (if t \<in> set tiles then map_option (\<lambda>td. td\<lparr>t_segment := Some name\<rparr>) (map_of db t)
         else map_of db t)" by auto
  from ok have d: "distinct (map fst segs)"
    and o: "\<And>t. listing segs t \<noteq> [] \<Longrightarrow>
          \<exists>td. map_of db t = Some td \<and> t_segment td = Some (last (listing segs t))"
    unfolding st owners_ok_def by auto
  have l: "\<And>t. listing segs' t = (if t \<in> set tiles then listing segs t @ [name] else listing segs t)"
    unfolding segs' listing_def by simp
  have d': "distinct (map fst segs')" using d fresh unfolding segs' by simp
  have "\<And>t. listing segs' t \<noteq> [] \<Longrightarrow>
          \<exists>td. map_of db' t = Some td \<and> t_segment td = Some (last (listing segs' t))"
  proof -
    fix t assume ne: "listing segs' t \<noteq> []"
    show "\<exists>td. map_of db' t = Some td \<and> t_segment td = Some (last (listing segs' t))"
    proof (cases "t \<in> set tiles")
      case True
      with sub have "t \<in> fst ` set db" by auto
      then have "map_of db t \<noteq> None" by (simp add: in_keys_map_of)
      then obtain td where "map_of db t = Some td" by auto
      with True show ?thesis by (simp add: m l)
    next
      case False
      with ne have "listing segs t \<noteq> []" by (simp add: l)
      from o [OF this] False show ?thesis by (simp add: m l)
    qed
  qed
  with d' show ?thesis unfolding st' owners_ok_def by simp
qed

lemma bram_dsp_k_Inr:
  "bram_dsp_k grid tba name ty x y k st = Inr st' \<Longrightarrow>
     \<exists>sname tiles segtype baseaddr.
       add_segment sname tiles segtype 28 2 baseaddr st = Inr st'"
  unfolding bram_dsp_k_def
  by (simp split: sum.splits prod.splits) blast

lemma process_tile_owners_ok:
  assumes ok: "owners_ok st" and p: "process_tile grid tba item st = Inr st'"
  shows "owners_ok st'"
proof -
  obtain name td where item: "item = (name, td)" by (cases item)
  let ?fam = "nolr (t_type td)"
  consider (clb) "?fam = ''CLBLL'' \<or> ?fam = ''CLBLM''"
    | (hclk) "\<not> (?fam = ''CLBLL'' \<or> ?fam = ''CLBLM'')" "?fam = ''HCLK''"
    | (bram) "\<not> (?fam = ''CLBLL'' \<or> ?fam = ''CLBLM'')" "?fam \<noteq> ''HCLK''"
        "?fam = ''BRAM'' \<or> ?fam = ''DSP''"
    | (other) "\<not> (?fam = ''CLBLL'' \<or> ?fam = ''CLBLM'')" "?fam \<noteq> ''HCLK''"
        "\<not> (?fam = ''BRAM'' \<or> ?fam = ''DSP'')"
    by blast
  then show ?thesis
  proof cases
    case clb
    with p have "\<exists>sname tiles segtype baseaddr.
        add_segment sname tiles segtype 36 2 baseaddr st = Inr st'"
      unfolding item process_tile_def process_clb_def Let_def
      by (auto split: option.splits if_splits)
    with ok show ?thesis by (auto intro: add_segment_owners_ok)
  next
    case hclk
    with p have "add_segment (''SEG_'' @ name) [name] (lower (t_type td)) 26 1 None st = Inr st'"
      unfolding item process_tile_def process_hclk_def Let_def by simp
    with ok show ?thesis by (rule add_segment_owners_ok)
  next
    case bram
    with p have fe: "for_each (bram_dsp_k grid tba name (t_type td) (t_grid_x td) (t_grid_y td))
        [0..<5] st = Inr st'"
      unfolding item process_tile_def process_bram_dsp_def Let_def by simp
    show ?thesis
    proof (rule for_each_invariant [where I = owners_ok, OF _ ok fe])
      fix k s s'
      assume "owners_ok s"
        "bram_dsp_k grid tba name (t_type td) (t_grid_x td) (t_grid_y td) k s = Inr s'"
      then show "owners_ok s'"
        by (auto dest!: bram_dsp_k_Inr intro: add_segment_owners_ok)
    qed
  next
    case other
    with p have "st' = st"
      unfolding item process_tile_def process_default_def Let_def by simp
    with ok show ?thesis by simp
  qed
qed

lemma make_segments_owners_ok:
  assumes "make_segments db grid tba = Inr st'"
  shows "owners_ok st'"
proof (rule for_each_invariant [where I = owners_ok and s = "(db, [])"])
  show "owners_ok (db, [])" by (simp add: owners_ok_def listing_def)
  show "for_each (process_tile grid tba) db (db, []) = Inr st'"
    using assms by (simp add: make_segments_def)
  fix x s s'
  assume "owners_ok s" "process_tile grid tba x s = Inr s'"
  then show "owners_ok s'" by (rule process_tile_owners_ok)
qed

lemma ex9_make_segments:
  "make_segments (make_database ex9_tiles) (make_tiles_by_grid ex9_tiles) [] =
     Inr (ex9_database, ex9_segments)"
  by (simp add: make_segments_def make_database_def make_tiles_by_grid_def ex9_tiles_def
      ex9_database_def ex9_segments_def process_tile_def process_clb_def nolr_def
      process_default_def
      add_segment_def set_segment_def lower_def lower_char_def char_of_def bit_Suc_0_iff)

text \<open>
  Claim C9 says that after segment construction every tile in a segment's tile list
  records that segment as its owner, so that no tile is listed twice. The code does not
  check membership: \<^verbatim>\<open>add_segment\<close> overwrites the owner. With a left CLB tile at
  \<open>(0, 0)\<close>, an interconnect tile at \<open>(1, 0)\<close> and a right CLB tile at \<open>(2, 0)\<close>,
  construction succeeds, both segments list the interconnect tile, and the tile records
  the second one.
\<close>

theorem make_segments_owner_not_unique:
  "make_segments (make_database ex9_tiles) (make_tiles_by_grid ex9_tiles) [] =
     Inr (ex9_database, ex9_segments) \<and>
   map_option s_tiles (map_of ex9_segments ''SEG_CLBLL_L_X2Y50'') =
     Some [''CLBLL_L_X2Y50'', ''INT_L_X2Y50''] \<and>
   map_option s_tiles (map_of ex9_segments ''SEG_CLBLL_R_X3Y50'') =
     Some [''CLBLL_R_X3Y50'', ''INT_L_X2Y50''] \<and>
   map_option t_segment (map_of ex9_database ''INT_L_X2Y50'') =
     Some (Some ''SEG_CLBLL_R_X3Y50'') \<and>
   ''SEG_CLBLL_R_X3Y50'' \<noteq> ''SEG_CLBLL_L_X2Y50''"
  using ex9_make_segments by (simp add: ex9_database_def ex9_segments_def)

text \<open>
  Claim C9, amended. After segment construction has succeeded, segment names are unique
  and every tile in the tile list of a created segment records as its owner the segment,
  among those that list it, that was created last; that segment exists and lists the
  tile. So the owner is the listing segment itself whenever no other segment lists the
  tile.
\<close>

theorem make_segments_owner_is_last:
  "make_segments db grid tba = Inr (db', segs') \<and> map_of segs' s = Some seg \<and>
   t \<in> set (s_tiles seg)
   \<longrightarrow>
   distinct (map fst segs') \<and> s \<in> set (listing segs' t) \<and>
   (\<exists>td. map_of db' t = Some td \<and> t_segment td = Some (last (listing segs' t))) \<and>
   (\<exists>oseg. map_of segs' (last (listing segs' t)) = Some oseg \<and> t \<in> set (s_tiles oseg)) \<and>
   (listing segs' t = [s] \<longrightarrow> (\<exists>td. map_of db' t = Some td \<and> t_segment td = Some s))"
proof
  assume a: "make_segments db grid tba = Inr (db', segs') \<and> map_of segs' s = Some seg \<and>
   t \<in> set (s_tiles seg)"
  then have ok: "owners_ok (db', segs')" by (auto dest: make_segments_owners_ok)
  then have d: "distinct (map fst segs')" by (simp add: owners_ok_def)
  from a have "(s, seg) \<in> set segs'" by (auto dest: map_of_SomeD)
  with a have sl: "s \<in> set (listing segs' t)" by (force simp: listing_def)
  then have ne: "listing segs' t \<noteq> []" by auto
  with ok have own: "\<exists>td. map_of db' t = Some td \<and> t_segment td = Some (last (listing segs' t))"
    by (simp add: owners_ok_def)
  from ne have "last (listing segs' t) \<in> set (listing segs' t)" by simp
  then obtain oseg where "(last (listing segs' t), oseg) \<in> set segs'" "t \<in> set (s_tiles oseg)"
    by (auto simp: listing_def)
  with d have o: "\<exists>oseg. map_of segs' (last (listing segs' t)) = Some oseg \<and> t \<in> set (s_tiles oseg)"
    by auto
  show "distinct (map fst segs') \<and> s \<in> set (listing segs' t) \<and>
   (\<exists>td. map_of db' t = Some td \<and> t_segment td = Some (last (listing segs' t))) \<and>
   (\<exists>oseg. map_of segs' (last (listing segs' t)) = Some oseg \<and> t \<in> set (s_tiles oseg)) \<and>
   (listing segs' t = [s] \<longrightarrow> (\<exists>td. map_of db' t = Some td \<and> t_segment td = Some s))"
    using d sl own o by auto
qed

theorem make_segments_owner_is_last_witness:
  "listing ex9_segments ''INT_L_X2Y50'' = [''SEG_CLBLL_L_X2Y50'', ''SEG_CLBLL_R_X3Y50''] \<and>
   listing ex9_segments ''CLBLL_L_X2Y50'' = [''SEG_CLBLL_L_X2Y50''] \<and>
   (\<exists>td. map_of ex9_database ''INT_L_X2Y50'' = Some td \<and>
      t_segment td = Some ''SEG_CLBLL_R_X3Y50'') \<and>
   (\<exists>td. map_of ex9_database ''CLBLL_L_X2Y50'' = Some td \<and>
      t_segment td = Some ''SEG_CLBLL_L_X2Y50'')"
proof -
  have l1: "listing ex9_segments ''INT_L_X2Y50'' = [''SEG_CLBLL_L_X2Y50'', ''SEG_CLBLL_R_X3Y50'']"
    by (simp add: listing_def ex9_segments_def)
  have l2: "listing ex9_segments ''CLBLL_L_X2Y50'' = [''SEG_CLBLL_L_X2Y50'']"
    by (simp add: listing_def ex9_segments_def)
  have s1: "map_of ex9_segments ''SEG_CLBLL_L_X2Y50'' =
      Some \<lparr>s_tiles = [''CLBLL_L_X2Y50'', ''INT_L_X2Y50''], s_type = ''clbll_l'',
        s_frames = 36, s_words = 2, s_baseaddr = None\<rparr>"
    by (simp add: ex9_segments_def)
  from make_segments_owner_is_last [of "make_database ex9_tiles" "make_tiles_by_grid ex9_tiles"
      "[]" ex9_database ex9_segments "''SEG_CLBLL_L_X2Y50''"
      "\<lparr>s_tiles = [''CLBLL_L_X2Y50'', ''INT_L_X2Y50''], s_type = ''clbll_l'',
        s_frames = 36, s_words = 2, s_baseaddr = None\<rparr>"
      "''INT_L_X2Y50''"]
    ex9_make_segments s1
  have w1: "\<exists>td. map_of ex9_database ''INT_L_X2Y50'' = Some td \<and>
      t_segment td = Some ''SEG_CLBLL_R_X3Y50''"
    by (simp add: l1)
  from make_segments_owner_is_last [of "make_database ex9_tiles" "make_tiles_by_grid ex9_tiles"
      "[]" ex9_database ex9_segments "''SEG_CLBLL_L_X2Y50''"
      "\<lparr>s_tiles = [''CLBLL_L_X2Y50'', ''INT_L_X2Y50''], s_type = ''clbll_l'',
        s_frames = 36, s_words = 2, s_baseaddr = None\<rparr>"
      "''CLBLL_L_X2Y50''"]
    ex9_make_segments s1
  have w2: "\<exists>td. map_of ex9_database ''CLBLL_L_X2Y50'' = Some td \<and>
      t_segment td = Some ''SEG_CLBLL_L_X2Y50''"
    by (simp add: l2)
  from l1 l2 w1 w2 show ?thesis by simp
qed

section \<open>Bit annotation\<close>

lemma for_each_fails:
  assumes "x \<in> set xs" and "\<And>s. \<exists>e. body x s = Inl e"
  shows "\<exists>e. for_each body xs s = Inl e"
  using assms(1)
proof (induction xs arbitrary: s)
  case Nil
  then show ?case by simp
next
  case (Cons y ys)
  show ?case
  proof (cases "body y s")
    case (Inl e)
    then show ?thesis by simp
  next
    case (Inr s1)
    have "y \<noteq> x" using Inr assms(2) [of s] by auto
    with Cons.prems have "x \<in> set ys" by simp
    from Cons.IH [OF this] Inr show ?thesis by simp
  qed
qed

lemma add_bits_segment_no_baseaddr:
  "s_baseaddr seg = None \<Longrightarrow> add_bits_segment (name, seg) db = Inl KeyError"
  by (simp add: add_bits_segment_def)

text \<open>
  Claim C8 says that bit annotation only acts on the segments that hold a base address,
  and that a segment without one adds nothing and raises nothing. \<^verbatim>\<open>add_bits\<close> reads
  \<^verbatim>\<open>segments[segment_name]["baseaddr"]\<close> of every segment, without the test for the key
  that both propagation passes make: any segment without base addresses aborts the
  annotation. A tile list with one clock-row tile is enough: its segment is never seeded,
  nothing is propagated to it, and \<^const>\<open>run\<close> ends in \<^verbatim>\<open>KeyError\<close>.
\<close>

theorem add_bits_requires_baseaddr:
  "(name, seg) \<in> set segs \<and> s_baseaddr seg = None \<longrightarrow> (\<exists>e. add_bits db segs = Inl e)"
proof
  assume a: "(name, seg) \<in> set segs \<and> s_baseaddr seg = None"
  then have m: "(name, seg) \<in> set segs" by simp
  have "\<And>s. \<exists>e. add_bits_segment (name, seg) s = Inl e"
    using a by (simp add: add_bits_segment_no_baseaddr)
  from for_each_fails [where body = add_bits_segment and x = "(name, seg)", OF m this] show "\<exists>e. add_bits db segs = Inl e"
    by (simp add: add_bits_def)
qed

lemma ex8_make_segments:
  "make_segments (make_database ex8_tiles) (make_tiles_by_grid ex8_tiles) [] =
     Inr ([(''HCLK_L_X5Y51'',
            \<lparr>t_type = ''HCLK_L'', t_sites = [], t_grid_x = 1, t_grid_y = 0,
             t_segment = Some ''SEG_HCLK_L_X5Y51'', t_bits = None, t_frames = None,
             t_words = None, t_segment_type = None\<rparr>)],
          [(''SEG_HCLK_L_X5Y51'',
            \<lparr>s_tiles = [''HCLK_L_X5Y51''], s_type = ''hclk_l'', s_frames = 26,
             s_words = 1, s_baseaddr = None\<rparr>)])"
  by (simp add: make_segments_def make_database_def make_tiles_by_grid_def ex8_tiles_def
      process_tile_def process_hclk_def nolr_def add_segment_def set_segment_def
      lower_def lower_char_def char_of_def bit_Suc_0_iff)

theorem add_bits_requires_baseaddr_witness:
  "(\<exists>e. add_bits
      [(''HCLK_L_X5Y51'',
        \<lparr>t_type = ''HCLK_L'', t_sites = [], t_grid_x = 1, t_grid_y = 0,
         t_segment = Some ''SEG_HCLK_L_X5Y51'', t_bits = None, t_frames = None,
         t_words = None, t_segment_type = None\<rparr>)]
      [(''SEG_HCLK_L_X5Y51'',
        \<lparr>s_tiles = [''HCLK_L_X5Y51''], s_type = ''hclk_l'', s_frames = 26,
         s_words = 1, s_baseaddr = None\<rparr>)] = Inl e) \<and>
   run ex8_tiles [] = Inl KeyError"
proof -
  have tb: "make_tile_baseaddrs ex8_tiles [] = Inr []"
    by (simp add: make_tile_baseaddrs_def ex8_tiles_def)
  have r: "run ex8_tiles [] = Inl KeyError"
    by (simp add: run_def Let_def tb ex8_make_segments
        seg_base_addr_lr_INT_def lr_segment_def seg_base_addr_up_INT_def
        src_segment_names_def add_bits_def add_bits_segment_def)
  from add_bits_requires_baseaddr [of "''SEG_HCLK_L_X5Y51''"
      "\<lparr>s_tiles = [''HCLK_L_X5Y51''], s_type = ''hclk_l'', s_frames = 26,
         s_words = 1, s_baseaddr = None\<rparr>"
      "[(''SEG_HCLK_L_X5Y51'',
        \<lparr>s_tiles = [''HCLK_L_X5Y51''], s_type = ''hclk_l'', s_frames = 26,
         s_words = 1, s_baseaddr = None\<rparr>)]"
      "[(''HCLK_L_X5Y51'',
        \<lparr>t_type = ''HCLK_L'', t_sites = [], t_grid_x = 1, t_grid_y = 0,
         t_segment = Some ''SEG_HCLK_L_X5Y51'', t_bits = None, t_frames = None,
         t_words = None, t_segment_type = None\<rparr>)]"] r
  show ?thesis by simp
qed

text \<open>
  What the claim says for the segments that do hold a base address is what the code does:
  the heights by family, no entry for height 0, \<^verbatim>\<open>ValueError\<close> for an unknown family and
  an assertion failure for a second entry of the same block type on a tile.
\<close>

lemma add_bits_tile_cases:
  "add_bits_tile baseaddr offset tile_name db =
     (case map_of db tile_name of
        None \<Rightarrow> Inl KeyError
      | Some td \<Rightarrow>
          (let family = nolr (t_type td) in
           if family \<in> {''CLBLL'', ''CLBLM'', ''INT''} then
             map_sum id (\<lambda>td'. AList.update tile_name td' db) (add_tile_bits td baseaddr offset 2)
           else if family = ''HCLK'' then
             map_sum id (\<lambda>td'. AList.update tile_name td' db) (add_tile_bits td baseaddr offset 1)
           else if family \<in> {''BRAM'', ''DSP''} then
             map_sum id (\<lambda>td'. AList.update tile_name td' db) (add_tile_bits td baseaddr offset 10)
           else if family \<in> {''INT_INTERFACE'', ''BRAM_INT_INTERFACE''} then Inr db
           else Inl ValueError))"
  by (simp add: add_bits_tile_def tile_heights_def Let_def split: option.splits sum.splits)

lemma add_tile_bits_duplicate:
  "addr2btype baseaddr = Inr bt \<Longrightarrow> t_bits td = Some bits \<Longrightarrow> bt \<in> fst ` set bits \<Longrightarrow>
     add_tile_bits td baseaddr offset height = Inl AssertionError"
  by (simp add: add_tile_bits_def)

section \<open>Lateral propagation\<close>

lemma segment_addr_update:
  "segment_addr (AList.update n sd segs) m bt =
     (if m = n then (case s_baseaddr sd of None \<Rightarrow> None | Some d \<Rightarrow> map_of d bt)
      else segment_addr segs m bt)"
  by (simp add: segment_addr_def update_conv')

lemma for_each_all_skip:
  "(\<And>x s. x \<in> set xs \<Longrightarrow> body x s = Inr s) \<Longrightarrow> for_each body xs s = Inr s"
  by (induction xs) auto

lemma for_each_one_active:
  assumes skip: "\<And>x s. fst x \<noteq> k \<Longrightarrow> body x s = Inr s"
  shows "distinct (map fst xs) \<Longrightarrow> (k, v) \<in> set xs \<Longrightarrow> for_each body xs s = body (k, v) s"
proof (induction xs)
  case Nil
  then show ?case by simp
next
  case (Cons x xs)
  show ?case
  proof (cases "x = (k, v)")
    case True
    have "\<And>y s. y \<in> set xs \<Longrightarrow> body y s = Inr s"
    proof -
      fix y s assume "y \<in> set xs"
      with Cons.prems(1) True have "fst y \<noteq> k" by force
      then show "body y s = Inr s" by (rule skip)
    qed
    then have "\<And>s1. for_each body xs s1 = Inr s1" by (rule for_each_all_skip)
    with True show ?thesis by (simp split: sum.splits)
  next
    case False
    with Cons.prems(2) have in_xs: "(k, v) \<in> set xs" by simp
    then have "k \<in> fst ` set xs" by force
    with Cons.prems(1) have "fst x \<noteq> k" by auto
    then have "body x s = Inr s" by (rule skip)
    moreover from Cons.prems(1) have "distinct (map fst xs)" by simp
    ultimately show ?thesis using Cons.IH in_xs by simp
  qed
qed

lemma sorted_items_set: "set (sorted_items d) = set d"
  by (simp add: sorted_items_def)

lemma sorted_items_distinct: "distinct (map fst d) \<Longrightarrow> distinct (map fst (sorted_items d))"
  by (simp add: sorted_items_def distinct_map)

lemma lr_item_skip: "fst x \<noteq> ''CLB_IO_CLK'' \<Longrightarrow> lr_item db grid seg x s = Inr s"
  by (cases x) (simp add: lr_item_def)

lemma lr_segment_item:
  assumes "map_of segs name = Some seg" "s_baseaddr seg = Some b" "distinct (map fst b)"
    "map_of b ''CLB_IO_CLK'' = Some (fb, wb)"
  shows "lr_segment db grid name segs = lr_item db grid seg (''CLB_IO_CLK'', (fb, wb)) segs"
proof -
  from assms(4) have m: "(''CLB_IO_CLK'', (fb, wb)) \<in> set b" by (rule map_of_SomeD)
  then have ne: "b \<noteq> []" by auto
  have "for_each (lr_item db grid seg) (sorted_items b) segs =
      lr_item db grid seg (''CLB_IO_CLK'', (fb, wb)) segs"
    using lr_item_skip sorted_items_distinct [OF assms(3)] m
    by (intro for_each_one_active) (simp_all add: sorted_items_set)
  moreover from ne obtain x xs where "b = x # xs" by (cases b) auto
  ultimately show ?thesis using assms(1,2)
    by (simp add: lr_segment_def)
qed

lemma lr_item_assign:
  assumes "get_inttile db seg = Inr it" "map_of db it = Some itd"
    "t_type itd = ''INT_L'' \<and> dx = 1 \<and> opp = ''INT_R''
       \<or> t_type itd = ''INT_R'' \<and> dx = - 1 \<and> opp = ''INT_L''"
  shows "lr_item db grid seg (''CLB_IO_CLK'', (fb, wb)) segs =
     lr_assign db grid ''CLB_IO_CLK'' (t_grid_x itd + dx, t_grid_y itd) opp
       (fb + 0x80 * dx) wb segs"
  using assms by (auto simp: lr_item_def)

lemma lr_assign_absent:
  "map_of grid c = None \<Longrightarrow> lr_assign db grid bt c opp fb wb segs = Inr segs"
  by (simp add: lr_assign_def)

lemma lr_assign_wrong_type:
  "map_of grid c = Some t \<Longrightarrow> map_of db t = Some td \<Longrightarrow> t_type td \<noteq> opp \<Longrightarrow>
     lr_assign db grid bt c opp fb wb segs = Inl AssertionError"
  by (simp add: lr_assign_def)

lemma lr_assign_present:
  assumes "map_of grid c = Some t" "map_of db t = Some td" "t_type td = opp"
    "t_segment td = Some owner" "map_of segs owner = Some sd"
  shows "lr_assign db grid bt c opp fb wb segs =
     (case segment_addr segs owner bt of
        Some v \<Rightarrow> if v = (fb, wb) then Inr segs else Inl AssertionError
      | None \<Rightarrow>
          Inr (AList.update owner
                 (sd\<lparr>s_baseaddr :=
                      Some (AList.update bt (fb, wb)
                              (case s_baseaddr sd of None \<Rightarrow> [] | Some d \<Rightarrow> d))\<rparr>) segs))"
  using assms
  by (simp add: lr_assign_def segment_addr_def Let_def split: option.splits)

lemma lr_assign_Inr_cases:
  assumes "lr_assign db grid bt c opp fb wb segs = Inr segs'" "map_of grid c = Some t"
  shows "\<exists>td owner sd. map_of db t = Some td \<and> t_type td = opp \<and>
           t_segment td = Some owner \<and> map_of segs owner = Some sd"
proof -
  from assms obtain td where td: "map_of db t = Some td"
    by (cases "map_of db t") (simp_all add: lr_assign_def)
  from assms td have ty: "t_type td = opp"
    by (cases "t_type td = opp") (simp_all add: lr_assign_def)
  from assms td ty obtain owner where ow: "t_segment td = Some owner"
    by (cases "t_segment td") (simp_all add: lr_assign_def)
  from assms td ty ow obtain sd where "map_of segs owner = Some sd"
    by (cases "map_of segs owner") (simp_all add: lr_assign_def)
  with td ty ow show ?thesis by blast
qed

lemma segment_addr_set:
  "map_of segs owner = Some sd \<Longrightarrow>
   segment_addr
     (AList.update owner
        (sd\<lparr>s_baseaddr := Some (AList.update bt v
                                  (case s_baseaddr sd of None \<Rightarrow> [] | Some d \<Rightarrow> d))\<rparr>) segs)
     s b =
   (if s = owner \<and> b = bt then Some v else segment_addr segs s b)"
  by (auto simp: segment_addr_def update_conv' split: option.splits)

lemma lr_assign_Inr:
  assumes a: "lr_assign db grid bt c opp fb wb segs = Inr segs'" and g: "map_of grid c = Some t"
  shows "\<exists>td owner. map_of db t = Some td \<and> t_type td = opp \<and> t_segment td = Some owner \<and>
           owner \<in> fst ` set segs \<and>
           segment_addr segs' owner bt = Some (fb, wb) \<and>
           (segment_addr segs owner bt = None \<or> segment_addr segs owner bt = Some (fb, wb))"
proof -
  from lr_assign_Inr_cases [OF a g] obtain td owner sd where
    f: "map_of db t = Some td" "t_type td = opp" "t_segment td = Some owner"
      "map_of segs owner = Some sd" by blast
  have k: "owner \<in> fst ` set segs" using f(4) by (simp add: in_keys_map_of)
  have "segment_addr segs' owner bt = Some (fb, wb) \<and>
      (segment_addr segs owner bt = None \<or> segment_addr segs owner bt = Some (fb, wb))"
  proof (cases "segment_addr segs owner bt")
    case None
    with a have "segs' = AList.update owner
                 (sd\<lparr>s_baseaddr :=
                      Some (AList.update bt (fb, wb)
                              (case s_baseaddr sd of None \<Rightarrow> [] | Some d \<Rightarrow> d))\<rparr>) segs"
      unfolding lr_assign_present [OF g f] by simp
    with None f(4) show ?thesis by (simp add: segment_addr_set)
  next
    case (Some v)
    with a have "v = (fb, wb) \<and> segs' = segs"
      unfolding lr_assign_present [OF g f] by (simp split: if_splits)
    with Some show ?thesis by simp
  qed
  with f k show ?thesis by blast
qed

lemma lr_assign_total:
  assumes g: "map_of grid c = Some t" and f: "map_of db t = Some td" "t_type td = opp"
    "t_segment td = Some owner" and k: "owner \<in> fst ` set segs"
    and v: "segment_addr segs owner bt = None \<or> segment_addr segs owner bt = Some (fb, wb)"
  shows "\<exists>segs'. lr_assign db grid bt c opp fb wb segs = Inr segs' \<and>
           segment_addr segs' owner bt = Some (fb, wb)"
proof -
  from k obtain sd where sd: "map_of segs owner = Some sd"
    by (auto simp: in_keys_map_of)
  from v show ?thesis
  proof
    assume "segment_addr segs owner bt = None"
    then show ?thesis
      unfolding lr_assign_present [OF g f sd] using sd by (simp add: segment_addr_set)
  next
    assume "segment_addr segs owner bt = Some (fb, wb)"
    then show ?thesis
      unfolding lr_assign_present [OF g f sd] by simp
  qed
qed

lemma tiles_update_baseaddr:
  "map_of segs owner = Some sd \<Longrightarrow>
   map_option s_tiles (map_of (AList.update owner (sd\<lparr>s_baseaddr := x\<rparr>) segs) s) =
   map_option s_tiles (map_of segs s)"
  by (simp add: update_conv')

lemma keys_update_baseaddr:
  "map_of segs owner = Some sd \<Longrightarrow>
   map fst (AList.update owner (sd\<lparr>s_baseaddr := x\<rparr>) segs) = map fst segs"
  by (simp add: update_keys_present in_keys_map_of)

lemma lr_assign_preserves:
  assumes a: "lr_assign db grid bt c opp fb wb segs = Inr segs'"
  shows "map fst segs' = map fst segs \<and>
    map_option s_tiles (map_of segs' s) = map_option s_tiles (map_of segs s) \<and>
    (segment_addr segs s b = Some v \<longrightarrow> segment_addr segs' s b = Some v)"
proof (cases "map_of grid c")
  case None
  with a have "segs' = segs" by (simp add: lr_assign_absent)
  then show ?thesis by simp
next
  case (Some t)
  from lr_assign_Inr_cases [OF a Some] obtain td owner sd where
    f: "map_of db t = Some td" "t_type td = opp" "t_segment td = Some owner"
      "map_of segs owner = Some sd" by blast
  show ?thesis
  proof (cases "segment_addr segs owner bt")
    case None
    with a have e: "segs' = AList.update owner
                 (sd\<lparr>s_baseaddr :=
                      Some (AList.update bt (fb, wb)
                              (case s_baseaddr sd of None \<Rightarrow> [] | Some d \<Rightarrow> d))\<rparr>) segs"
      unfolding lr_assign_present [OF Some f] by simp
    show ?thesis unfolding e using None f(4)
      by (auto simp: segment_addr_set tiles_update_baseaddr keys_update_baseaddr)
  next
    case (Some v')
    with a have "segs' = segs"
      unfolding lr_assign_present [OF \<open>map_of grid c = Some t\<close> f] by (simp split: if_splits)
    then show ?thesis by simp
  qed
qed

lemma extends_refl: "extends segs segs"
  by (simp add: extends_def)

lemma extends_trans: "extends a b \<Longrightarrow> extends b c \<Longrightarrow> extends a c"
  by (simp add: extends_def)

lemma lr_assign_extends:
  "lr_assign db grid bt c opp fb wb segs = Inr segs' \<Longrightarrow> extends segs segs'"
  unfolding extends_def using lr_assign_preserves by blast

lemma lr_item_Inr:
  assumes "lr_item db grid seg item segs = Inr segs'"
  shows "segs' = segs \<or>
    (\<exists>c opp fb wb. lr_assign db grid ''CLB_IO_CLK'' c opp fb wb segs = Inr segs')"
proof -
  obtain bt fb wb where item: "item = (bt, (fb, wb))" by (cases item) auto
  show ?thesis
  proof (cases "bt = ''CLB_IO_CLK''")
    case False
    with assms item show ?thesis by (simp add: lr_item_def)
  next
    case True
    from assms item True obtain it where it: "get_inttile db seg = Inr it"
      by (cases "get_inttile db seg") (simp_all add: lr_item_def)
    from assms item True it obtain itd where itd: "map_of db it = Some itd"
      by (cases "map_of db it") (simp_all add: lr_item_def)
    from assms item True it itd show ?thesis
      by (cases "t_type itd = ''INT_L''"; cases "t_type itd = ''INT_R''")
        (auto simp: lr_item_def)
  qed
qed

lemma lr_item_extends:
  "lr_item db grid seg item segs = Inr segs' \<Longrightarrow> extends segs segs'"
  by (auto dest!: lr_item_Inr intro: extends_refl lr_assign_extends)

lemma for_each_extends:
  assumes "\<And>x s s'. body x s = Inr s' \<Longrightarrow> extends s s'"
    and "for_each body xs segs = Inr segs'"
  shows "extends segs segs'"
proof (rule for_each_invariant [where I = "extends segs" and body = body and xs = xs
      and s = segs])
  show "extends segs segs" by (rule extends_refl)
  show "for_each body xs segs = Inr segs'" by (rule assms(2))
  fix x s s'
  assume "extends segs s" "body x s = Inr s'"
  then show "extends segs s'" using assms(1) extends_trans by blast
qed

lemma lr_segment_extends:
  assumes "lr_segment db grid name segs = Inr segs'"
  shows "extends segs segs'"
proof -
  from assms obtain seg where seg: "map_of segs name = Some seg"
    by (cases "map_of segs name") (simp_all add: lr_segment_def)
  show ?thesis
  proof (cases "s_baseaddr seg")
    case None
    with assms seg show ?thesis by (simp add: lr_segment_def extends_refl)
  next
    case (Some b)
    show ?thesis
    proof (cases b)
      case Nil
      with assms seg Some show ?thesis by (simp add: lr_segment_def extends_refl)
    next
      case (Cons x xs)
      with assms seg Some
      have "for_each (lr_item db grid seg) (sorted_items b) segs = Inr segs'"
        by (simp add: lr_segment_def)
      then show ?thesis by (rule for_each_extends [rotated]) (rule lr_item_extends)
    qed
  qed
qed

lemma seg_base_addr_lr_INT_extends:
  assumes "seg_base_addr_lr_INT db segs grid = Inr segs'"
  shows "extends segs segs'"
proof -
  from assms have "for_each (lr_segment db grid) (sort (map fst segs)) segs = Inr segs'"
    by (simp add: seg_base_addr_lr_INT_def)
  then show ?thesis by (rule for_each_extends [rotated]) (rule lr_segment_extends)
qed

text \<open>
  Claim C2. Take a segment that holds a \<^verbatim>\<open>CLB_IO_CLK\<close> address \<open>(fb, wb)\<close> and whose
  only interconnect tile, at \<open>(x, y)\<close>, has type \<^verbatim>\<open>INT_L\<close> (then \<open>dx = 1\<close>) or \<^verbatim>\<open>INT_R\<close>
  (then \<open>dx = -1\<close>). When the lateral pass processes it:
  if \<open>(x + dx, y)\<close> is not in the grid, nothing changes and nothing is raised;
  if the tile there has not the opposite orientation, the pass aborts;
  if the pass goes on, the segment that owns the tile there holds
  \<open>(fb + 0x80 * dx, wb)\<close> under \<^verbatim>\<open>CLB_IO_CLK\<close>;
  and it does go on when the owner exists and holds no \<^verbatim>\<open>CLB_IO_CLK\<close> address yet.
\<close>

theorem lr_segment_mirror:
  "map_of segs name = Some seg \<and> s_baseaddr seg = Some b \<and> distinct (map fst b) \<and>
   map_of b ''CLB_IO_CLK'' = Some (fb, wb) \<and>
   get_inttile db seg = Inr it \<and> map_of db it = Some itd \<and>
   (t_type itd = ''INT_L'' \<and> dx = 1 \<and> opp = ''INT_R''
      \<or> t_type itd = ''INT_R'' \<and> dx = - 1 \<and> opp = ''INT_L'')
   \<longrightarrow>
   (map_of grid (t_grid_x itd + dx, t_grid_y itd) = None \<longrightarrow>
      lr_segment db grid name segs = Inr segs) \<and>
   (\<forall>t td. map_of grid (t_grid_x itd + dx, t_grid_y itd) = Some t \<and>
      map_of db t = Some td \<and> t_type td \<noteq> opp \<longrightarrow>
      lr_segment db grid name segs = Inl AssertionError) \<and>
   (\<forall>t segs'. map_of grid (t_grid_x itd + dx, t_grid_y itd) = Some t \<and>
      lr_segment db grid name segs = Inr segs' \<longrightarrow>
      (\<exists>td owner. map_of db t = Some td \<and> t_type td = opp \<and> t_segment td = Some owner \<and>
         segment_addr segs' owner ''CLB_IO_CLK'' = Some (fb + 0x80 * dx, wb))) \<and>
   (\<forall>t td owner. map_of grid (t_grid_x itd + dx, t_grid_y itd) = Some t \<and>
      map_of db t = Some td \<and> t_type td = opp \<and> t_segment td = Some owner \<and>
      owner \<in> fst ` set segs \<and> segment_addr segs owner ''CLB_IO_CLK'' = None \<longrightarrow>
      (\<exists>segs'. lr_segment db grid name segs = Inr segs' \<and>
         segment_addr segs' owner ''CLB_IO_CLK'' = Some (fb + 0x80 * dx, wb)))"
proof (intro impI)
  assume a: "map_of segs name = Some seg \<and> s_baseaddr seg = Some b \<and> distinct (map fst b) \<and>
   map_of b ''CLB_IO_CLK'' = Some (fb, wb) \<and>
   get_inttile db seg = Inr it \<and> map_of db it = Some itd \<and>
   (t_type itd = ''INT_L'' \<and> dx = 1 \<and> opp = ''INT_R''
      \<or> t_type itd = ''INT_R'' \<and> dx = - 1 \<and> opp = ''INT_L'')"
  then have 1: "map_of segs name = Some seg" "s_baseaddr seg = Some b" "distinct (map fst b)"
      "map_of b ''CLB_IO_CLK'' = Some (fb, wb)"
    and 2: "get_inttile db seg = Inr it" "map_of db it = Some itd"
      "t_type itd = ''INT_L'' \<and> dx = 1 \<and> opp = ''INT_R''
         \<or> t_type itd = ''INT_R'' \<and> dx = - 1 \<and> opp = ''INT_L''"
    by blast+
  let ?c = "(t_grid_x itd + dx, t_grid_y itd)"
  have e: "lr_segment db grid name segs =
      lr_assign db grid ''CLB_IO_CLK'' ?c opp (fb + 0x80 * dx) wb segs"
    unfolding lr_segment_item [OF 1] by (rule lr_item_assign [OF 2])
  show "(map_of grid ?c = None \<longrightarrow> lr_segment db grid name segs = Inr segs) \<and>
   (\<forall>t td. map_of grid ?c = Some t \<and>
      map_of db t = Some td \<and> t_type td \<noteq> opp \<longrightarrow>
      lr_segment db grid name segs = Inl AssertionError) \<and>
   (\<forall>t segs'. map_of grid ?c = Some t \<and>
      lr_segment db grid name segs = Inr segs' \<longrightarrow>
      (\<exists>td owner. map_of db t = Some td \<and> t_type td = opp \<and> t_segment td = Some owner \<and>
         segment_addr segs' owner ''CLB_IO_CLK'' = Some (fb + 0x80 * dx, wb))) \<and>
   (\<forall>t td owner. map_of grid ?c = Some t \<and>
      map_of db t = Some td \<and> t_type td = opp \<and> t_segment td = Some owner \<and>
      owner \<in> fst ` set segs \<and> segment_addr segs owner ''CLB_IO_CLK'' = None \<longrightarrow>
      (\<exists>segs'. lr_segment db grid name segs = Inr segs' \<and>
         segment_addr segs' owner ''CLB_IO_CLK'' = Some (fb + 0x80 * dx, wb)))"
    unfolding e
  proof (intro conjI allI impI)
    assume "map_of grid ?c = None"
    then show "lr_assign db grid ''CLB_IO_CLK'' ?c opp (fb + 0x80 * dx) wb segs = Inr segs"
      by (rule lr_assign_absent)
  next
    fix t td
    assume "map_of grid ?c = Some t \<and> map_of db t = Some td \<and> t_type td \<noteq> opp"
    then show "lr_assign db grid ''CLB_IO_CLK'' ?c opp (fb + 0x80 * dx) wb segs =
        Inl AssertionError"
      by (simp add: lr_assign_wrong_type)
  next
    fix t segs'
    assume "map_of grid ?c = Some t \<and>
      lr_assign db grid ''CLB_IO_CLK'' ?c opp (fb + 0x80 * dx) wb segs = Inr segs'"
    then have "lr_assign db grid ''CLB_IO_CLK'' ?c opp (fb + 0x80 * dx) wb segs = Inr segs'"
      "map_of grid ?c = Some t" by simp_all
    from lr_assign_Inr [OF this]
    show "\<exists>td owner. map_of db t = Some td \<and> t_type td = opp \<and> t_segment td = Some owner \<and>
         segment_addr segs' owner ''CLB_IO_CLK'' = Some (fb + 0x80 * dx, wb)"
      by blast
  next
    fix t td owner
    assume h: "map_of grid ?c = Some t \<and>
      map_of db t = Some td \<and> t_type td = opp \<and> t_segment td = Some owner \<and>
      owner \<in> fst ` set segs \<and> segment_addr segs owner ''CLB_IO_CLK'' = None"
    then have "map_of grid ?c = Some t" "map_of db t = Some td" "t_type td = opp"
      "t_segment td = Some owner" "owner \<in> fst ` set segs"
      "segment_addr segs owner ''CLB_IO_CLK'' = None
        \<or> segment_addr segs owner ''CLB_IO_CLK'' = Some (fb + 0x80 * dx, wb)"
      by simp_all
    then show "\<exists>segs'. lr_assign db grid ''CLB_IO_CLK'' ?c opp (fb + 0x80 * dx) wb segs =
        Inr segs' \<and> segment_addr segs' owner ''CLB_IO_CLK'' = Some (fb + 0x80 * dx, wb)"
      by (rule lr_assign_total)
  qed
qed

lemma ex2_make_segments:
  "make_segments (make_database ex2_tiles) (make_tiles_by_grid ex2_tiles)
     [(''CLBLL_L_X2Y50'', [(''CLB_IO_CLK'', (0x00400000, 0))])] =
     Inr (ex2_database, ex2_segments)"
  "make_tiles_by_grid ex2_tiles = ex2_grid"
  by (simp_all add: make_segments_def make_database_def make_tiles_by_grid_def ex2_tiles_def
      ex2_database_def ex2_segments_def ex2_seg_l_def ex2_seg_r_def ex2_grid_def
      process_tile_def process_clb_def nolr_def process_default_def
      add_segment_def set_segment_def lower_def lower_char_def char_of_def bit_Suc_0_iff)

lemma ex2_source_l:
  "map_of ex2_segments ''SEG_CLBLL_L_X2Y50'' =
     Some (ex2_seg_l (Some [(''CLB_IO_CLK'', (0x00400000, 0))])) \<and>
   s_baseaddr (ex2_seg_l (Some [(''CLB_IO_CLK'', (0x00400000, 0))])) =
     Some [(''CLB_IO_CLK'', (0x00400000, 0))] \<and>
   distinct (map fst [(''CLB_IO_CLK'', (0x00400000 :: int, 0 :: int))]) \<and>
   map_of [(''CLB_IO_CLK'', (0x00400000 :: int, 0 :: int))] ''CLB_IO_CLK'' = Some (0x00400000, 0) \<and>
   get_inttile ex2_database (ex2_seg_l (Some [(''CLB_IO_CLK'', (0x00400000, 0))])) =
     Inr ''INT_L_X2Y50'' \<and>
   map_of ex2_database ''INT_L_X2Y50'' = Some (plain_tile ''INT_L'' 1 0
      \<lparr>t_segment := Some ''SEG_CLBLL_L_X2Y50''\<rparr>) \<and>
   (t_type (plain_tile ''INT_L'' 1 0\<lparr>t_segment := Some ''SEG_CLBLL_L_X2Y50''\<rparr>) = ''INT_L'' \<and>
      (1 :: int) = 1 \<and> ''INT_R'' = ''INT_R''
    \<or> t_type (plain_tile ''INT_L'' 1 0\<lparr>t_segment := Some ''SEG_CLBLL_L_X2Y50''\<rparr>) = ''INT_R'' \<and>
      (1 :: int) = - 1 \<and> ''INT_R'' = ''INT_L'')"
  by (simp add: ex2_segments_def ex2_seg_l_def ex2_database_def get_inttile_def plain_tile_def)

lemma ex2_source_r:
  "map_of ex2_segments_r ''SEG_CLBLM_R_X3Y50'' =
     Some (ex2_seg_r (Some [(''CLB_IO_CLK'', (0x00400080, 0))])) \<and>
   s_baseaddr (ex2_seg_r (Some [(''CLB_IO_CLK'', (0x00400080, 0))])) =
     Some [(''CLB_IO_CLK'', (0x00400080, 0))] \<and>
   distinct (map fst [(''CLB_IO_CLK'', (0x00400080 :: int, 0 :: int))]) \<and>
   map_of [(''CLB_IO_CLK'', (0x00400080 :: int, 0 :: int))] ''CLB_IO_CLK'' = Some (0x00400080, 0) \<and>
   get_inttile ex2_database (ex2_seg_r (Some [(''CLB_IO_CLK'', (0x00400080, 0))])) =
     Inr ''INT_R_X3Y50'' \<and>
   map_of ex2_database ''INT_R_X3Y50'' = Some (plain_tile ''INT_R'' 2 0
      \<lparr>t_segment := Some ''SEG_CLBLM_R_X3Y50''\<rparr>) \<and>
   (t_type (plain_tile ''INT_R'' 2 0\<lparr>t_segment := Some ''SEG_CLBLM_R_X3Y50''\<rparr>) = ''INT_L'' \<and>
      (- 1 :: int) = 1 \<and> ''INT_L'' = ''INT_R''
    \<or> t_type (plain_tile ''INT_R'' 2 0\<lparr>t_segment := Some ''SEG_CLBLM_R_X3Y50''\<rparr>) = ''INT_R'' \<and>
      (- 1 :: int) = - 1 \<and> ''INT_L'' = ''INT_L'')"
  by (simp add: ex2_segments_r_def ex2_seg_r_def ex2_database_def get_inttile_def plain_tile_def)

theorem lr_segment_mirror_witness:
  "(\<exists>segs'. lr_segment ex2_database ex2_grid ''SEG_CLBLL_L_X2Y50'' ex2_segments = Inr segs' \<and>
      segment_addr segs' ''SEG_CLBLM_R_X3Y50'' ''CLB_IO_CLK'' = Some (0x00400080, 0)) \<and>
   (\<exists>segs'. lr_segment ex2_database ex2_grid ''SEG_CLBLM_R_X3Y50'' ex2_segments_r = Inr segs' \<and>
      segment_addr segs' ''SEG_CLBLL_L_X2Y50'' ''CLB_IO_CLK'' = Some (0x00400000, 0)) \<and>
   lr_segment ex2_database ex2_grid_edge ''SEG_CLBLL_L_X2Y50'' ex2_segments = Inr ex2_segments \<and>
   lr_segment ex2_database ex2_grid_bad ''SEG_CLBLL_L_X2Y50'' ex2_segments =
     Inl AssertionError"
proof -
  note l = lr_segment_mirror [THEN mp, OF ex2_source_l]
  note r = lr_segment_mirror [THEN mp, OF ex2_source_r]
  have "\<exists>segs'. lr_segment ex2_database ex2_grid ''SEG_CLBLL_L_X2Y50'' ex2_segments = Inr segs' \<and>
      segment_addr segs' ''SEG_CLBLM_R_X3Y50'' ''CLB_IO_CLK'' = Some (0x00400000 + 0x80 * 1, 0)"
    by (rule l [of ex2_grid, THEN conjunct2, THEN conjunct2, THEN conjunct2, rule_format,
          of "''INT_R_X3Y50''"
             "plain_tile ''INT_R'' 2 0\<lparr>t_segment := Some ''SEG_CLBLM_R_X3Y50''\<rparr>"])
      (simp add: ex2_grid_def ex2_database_def plain_tile_def ex2_segments_def
        segment_addr_def ex2_seg_r_def)
  moreover
  have "\<exists>segs'. lr_segment ex2_database ex2_grid ''SEG_CLBLM_R_X3Y50'' ex2_segments_r = Inr segs' \<and>
      segment_addr segs' ''SEG_CLBLL_L_X2Y50'' ''CLB_IO_CLK'' = Some (0x00400080 + 0x80 * - 1, 0)"
    by (rule r [of ex2_grid, THEN conjunct2, THEN conjunct2, THEN conjunct2, rule_format,
          of "''INT_L_X2Y50''"
             "plain_tile ''INT_L'' 1 0\<lparr>t_segment := Some ''SEG_CLBLL_L_X2Y50''\<rparr>"])
      (simp add: ex2_grid_def ex2_database_def plain_tile_def ex2_segments_r_def
        segment_addr_def ex2_seg_l_def)
  moreover
  have "lr_segment ex2_database ex2_grid_edge ''SEG_CLBLL_L_X2Y50'' ex2_segments =
      Inr ex2_segments"
    by (rule l [of ex2_grid_edge, THEN conjunct1, THEN mp])
      (simp add: ex2_grid_edge_def plain_tile_def)
  moreover
  have "lr_segment ex2_database ex2_grid_bad ''SEG_CLBLL_L_X2Y50'' ex2_segments =
      Inl AssertionError"
    by (rule l [of ex2_grid_bad, THEN conjunct2, THEN conjunct1, rule_format,
          of "''CLBLM_R_X3Y50''" "the (map_of ex2_database ''CLBLM_R_X3Y50'')"])
      (simp add: ex2_grid_bad_def ex2_database_def plain_tile_def)
  ultimately show ?thesis by simp
qed

section \<open>Vertical propagation\<close>

subsection \<open>The word offsets of a walk\<close>

lemma word_at_0: "word_at 0 wb = wb"
  by (simp add: word_at_def)

lemma word_at_Suc: "word_at (Suc i) wb = next_wordbase (word_at i wb)"
  by (simp add: word_at_def)

lemma word_at_shift: "word_at i (next_wordbase wb) = word_at (Suc i) wb"
  by (simp add: word_at_def funpow_swap1)

lemma word_at_step:
  "word_at (Suc i) wb = (if word_at i wb = 50 then word_at i wb + 1 else word_at i wb + 2)"
  by (simp add: word_at_Suc next_wordbase_def)

lemma word_at_less_Suc: "word_at i wb < word_at (Suc i) wb"
  by (simp add: word_at_step)

lemma word_at_mono: "i < j \<Longrightarrow> word_at i wb < word_at j wb"
proof (induction j)
  case 0
  then show ?case by simp
next
  case (Suc j)
  show ?case
  proof (cases "i = j")
    case True
    then show ?thesis by (simp add: word_at_less_Suc)
  next
    case False
    with Suc.prems have "i < j" by simp
    from Suc.IH [OF this] word_at_less_Suc [of j wb] show ?thesis by simp
  qed
qed

lemma word_at_inj: "word_at i wb = word_at j wb \<Longrightarrow> i = j"
proof (rule ccontr)
  assume e: "word_at i wb = word_at j wb" and "i \<noteq> j"
  then have "i < j \<or> j < i" by auto
  with e word_at_mono [of i j wb] word_at_mono [of j i wb] show False by auto
qed

lemma word_at_total:
  "((\<forall>i<n. word_at i wb \<noteq> 50) \<longrightarrow> word_at n wb = wb + 2 * int n) \<and>
   ((\<exists>i<n. word_at i wb = 50) \<longrightarrow> word_at n wb = wb + 2 * int n - 1)"
proof (induction n)
  case 0
  then show ?case by (simp add: word_at_0)
next
  case (Suc n)
  show ?case
  proof (intro conjI impI)
    assume a: "\<forall>i<Suc n. word_at i wb \<noteq> 50"
    then have "word_at n wb = wb + 2 * int n" "word_at n wb \<noteq> 50" using Suc.IH by auto
    then show "word_at (Suc n) wb = wb + 2 * int (Suc n)" by (simp add: word_at_step)
  next
    assume "\<exists>i<Suc n. word_at i wb = 50"
    then obtain i where i: "i < Suc n" "word_at i wb = 50" by blast
    show "word_at (Suc n) wb = wb + 2 * int (Suc n) - 1"
    proof (cases "i = n")
      case True
      have "\<forall>j<n. word_at j wb \<noteq> 50"
      proof (intro allI impI)
        fix j assume "j < n"
        with True have "word_at j wb < word_at i wb" by (simp add: word_at_mono)
        with i(2) show "word_at j wb \<noteq> 50" by simp
      qed
      with Suc.IH have "word_at n wb = wb + 2 * int n" by simp
      with True i(2) show ?thesis by (simp add: word_at_step)
    next
      case False
      with i(1) have lt: "i < n" by simp
      with i(2) Suc.IH have e: "word_at n wb = wb + 2 * int n - 1" by blast
      from lt have "word_at i wb < word_at n wb" by (rule word_at_mono)
      with i(2) have "word_at n wb \<noteq> 50" by simp
      with e show ?thesis by (simp add: word_at_step)
    qed
  qed
qed

lemma word_at_25: "word_at 25 0 = 50"
  by (simp add: word_at_def next_wordbase_def eval_nat_numeral)

lemma word_at_above: "50 < wb \<Longrightarrow> word_at i wb \<noteq> 50"
proof (cases i)
  case 0
  assume "50 < wb"
  with 0 show ?thesis by (simp add: word_at_0)
next
  case (Suc j)
  assume a: "50 < wb"
  have "word_at 0 wb < word_at i wb" using Suc by (intro word_at_mono) simp
  with a show ?thesis by (simp add: word_at_0)
qed

lemma word_at_50_2: "word_at 50 2 = 101"
proof -
  have "word_at 24 (next_wordbase 0) = word_at 25 0" by (simp add: word_at_shift)
  then have "word_at 24 2 = 50" by (simp add: next_wordbase_def word_at_25)
  then have "\<exists>i<50. word_at i 2 = 50" by (intro exI [of _ 24]) simp
  with word_at_total [of 50 2] show ?thesis by simp
qed

subsection \<open>One step and the walk\<close>

lemma up_step_owner:
  "up_step db grid bt fb x (y, wb, segs) =
     (case owner_at db grid x (y - 1) of
        None \<Rightarrow> Inl KeyError
      | Some dst \<Rightarrow>
          (case map_of segs dst of
             None \<Rightarrow> Inl KeyError
           | Some sd \<Rightarrow>
               Inr (y - 1, next_wordbase wb,
                    AList.update dst
                      (sd\<lparr>s_baseaddr :=
                           Some (AList.update bt (fb, next_wordbase wb)
                                   (case s_baseaddr sd of None \<Rightarrow> [] | Some d \<Rightarrow> d))\<rparr>)
                      segs)))"
  by (simp add: up_step_def owner_at_def Let_def split: option.splits)

lemma owner_at_None:
  "owner_at db grid x y = None \<longleftrightarrow>
     map_of grid (x, y) = None \<or>
     (\<exists>t. map_of grid (x, y) = Some t \<and>
        (map_of db t = None \<or> (\<exists>td. map_of db t = Some td \<and> t_segment td = None)))"
  by (auto simp: owner_at_def split: option.splits)

lemma up_step_Inr:
  assumes "up_step db grid bt fb x (y, wb, segs) = Inr (y', wb', segs')"
  shows "\<exists>dst sd. owner_at db grid x (y - 1) = Some dst \<and> map_of segs dst = Some sd \<and>
     y' = y - 1 \<and> wb' = next_wordbase wb \<and>
     segs' = AList.update dst
               (sd\<lparr>s_baseaddr :=
                    Some (AList.update bt (fb, wb')
                            (case s_baseaddr sd of None \<Rightarrow> [] | Some d \<Rightarrow> d))\<rparr>) segs"
  using assms unfolding up_step_owner
  by (auto split: option.splits)

lemma up_step_total:
  assumes "owner_at db grid x (y - 1) = Some dst" "dst \<in> fst ` set segs"
  shows "\<exists>segs'. up_step db grid bt fb x (y, wb, segs) = Inr (y - 1, next_wordbase wb, segs')"
proof -
  from assms(2) obtain sd where "map_of segs dst = Some sd" by (auto simp: in_keys_map_of)
  with assms(1) show ?thesis unfolding up_step_owner by simp
qed

lemma up_step_effect:
  assumes "up_step db grid bt fb x (y, wb, segs) = Inr (y', wb', segs')"
  shows "\<exists>dst. owner_at db grid x (y - 1) = Some dst \<and> dst \<in> fst ` set segs \<and>
     y' = y - 1 \<and> wb' = next_wordbase wb \<and> map fst segs' = map fst segs \<and>
     (\<forall>s. map_option s_tiles (map_of segs' s) = map_option s_tiles (map_of segs s)) \<and>
     (\<forall>s b. segment_addr segs' s b =
        (if s = dst \<and> b = bt then Some (fb, wb') else segment_addr segs s b))"
proof -
  from up_step_Inr [OF assms] obtain dst sd where
    f: "owner_at db grid x (y - 1) = Some dst" "map_of segs dst = Some sd"
      "y' = y - 1" "wb' = next_wordbase wb"
    and e: "segs' = AList.update dst
               (sd\<lparr>s_baseaddr :=
                    Some (AList.update bt (fb, wb')
                            (case s_baseaddr sd of None \<Rightarrow> [] | Some d \<Rightarrow> d))\<rparr>) segs"
    by blast
  have k: "dst \<in> fst ` set segs" using f(2) by (simp add: in_keys_map_of)
  show ?thesis unfolding e using f k
    by (auto simp: segment_addr_set tiles_update_baseaddr keys_update_baseaddr)
qed

lemma repeat_add:
  "repeat (i + j) f s = (case repeat i f s of Inl e \<Rightarrow> Inl e | Inr s1 \<Rightarrow> repeat j f s1)"
  by (induction i arbitrary: s) (auto split: sum.splits)

lemma repeat_prefix:
  assumes "repeat n f s = Inr s'" "i \<le> n"
  shows "\<exists>s1. repeat i f s = Inr s1 \<and> repeat (n - i) f s1 = Inr s'"
proof -
  from assms(2) have "n = i + (n - i)" by simp
  then have "repeat (i + (n - i)) f s = Inr s'" using assms(1) by simp
  then show ?thesis unfolding repeat_add by (auto split: sum.splits)
qed

lemma walk_Inr:
  "repeat n (up_step db grid bt fb x) (y, wb, segs) = Inr (y', wb', segs') \<Longrightarrow>
     y' = y - int n \<and> wb' = word_at n wb \<and> map fst segs' = map fst segs \<and>
     (\<forall>s. map_option s_tiles (map_of segs' s) = map_option s_tiles (map_of segs s)) \<and>
     (\<forall>i\<in>{1..n}. \<exists>dst. owner_at db grid x (y - int i) = Some dst \<and> dst \<in> fst ` set segs)"
proof (induction n arbitrary: y wb segs)
  case 0
  then show ?case by (simp add: word_at_0)
next
  case (Suc n)
  from Suc.prems obtain y1 wb1 segs1 where
    s1: "up_step db grid bt fb x (y, wb, segs) = Inr (y1, wb1, segs1)"
    and r: "repeat n (up_step db grid bt fb x) (y1, wb1, segs1) = Inr (y', wb', segs')"
    by (auto split: sum.splits)
  from up_step_effect [OF s1] obtain dst where
    d: "owner_at db grid x (y - 1) = Some dst" "dst \<in> fst ` set segs"
      "y1 = y - 1" "wb1 = next_wordbase wb" "map fst segs1 = map fst segs"
      "\<And>s. map_option s_tiles (map_of segs1 s) = map_option s_tiles (map_of segs s)"
    by blast
  from Suc.IH [OF r] have ih: "y' = y1 - int n" "wb' = word_at n wb1"
      "map fst segs' = map fst segs1"
      "\<And>s. map_option s_tiles (map_of segs' s) = map_option s_tiles (map_of segs1 s)"
      "\<And>i. i \<in> {1..n} \<Longrightarrow>
         \<exists>dst. owner_at db grid x (y1 - int i) = Some dst \<and> dst \<in> fst ` set segs1"
    by auto
  have keys: "fst ` set segs1 = fst ` set segs" using d(5) by (metis set_map)
  have "\<forall>i\<in>{1..Suc n}. \<exists>dst. owner_at db grid x (y - int i) = Some dst \<and> dst \<in> fst ` set segs"
  proof
    fix i assume i: "i \<in> {1..Suc n}"
    show "\<exists>dst. owner_at db grid x (y - int i) = Some dst \<and> dst \<in> fst ` set segs"
    proof (cases "i = 1")
      case True
      with d(1,2) show ?thesis by auto
    next
      case False
      with i have "i - 1 \<in> {1..n}" by auto
      from ih(5) [OF this] have
        "\<exists>dst. owner_at db grid x (y1 - int (i - 1)) = Some dst \<and> dst \<in> fst ` set segs1" .
      moreover have "y1 - int (i - 1) = y - int i" using i d(3) by auto
      ultimately show ?thesis using keys by simp
    qed
  qed
  with ih(1-4) d(3-6) show ?case by (simp add: word_at_shift)
qed

lemma walk_total:
  "(\<forall>i\<in>{1..n}. \<exists>dst. owner_at db grid x (y - int i) = Some dst \<and> dst \<in> fst ` set segs) \<Longrightarrow>
     \<exists>segs'. repeat n (up_step db grid bt fb x) (y, wb, segs) =
        Inr (y - int n, word_at n wb, segs')"
proof (induction n arbitrary: y wb segs)
  case 0
  then show ?case by (simp add: word_at_0)
next
  case (Suc n)
  from Suc.prems have "\<exists>dst. owner_at db grid x (y - int 1) = Some dst \<and> dst \<in> fst ` set segs"
    by (intro bspec [where x = 1]) auto
  then obtain dst where d: "owner_at db grid x (y - 1) = Some dst" "dst \<in> fst ` set segs"
    by auto
  from up_step_total [OF d] obtain segs1 where
    s1: "up_step db grid bt fb x (y, wb, segs) = Inr (y - 1, next_wordbase wb, segs1)"
    by blast
  from up_step_effect [OF s1] have "map fst segs1 = map fst segs" by blast
  then have keys: "fst ` set segs1 = fst ` set segs" by (metis set_map)
  have "\<forall>i\<in>{1..n}. \<exists>dst. owner_at db grid x (y - 1 - int i) = Some dst \<and> dst \<in> fst ` set segs1"
  proof
    fix i assume "i \<in> {1..n}"
    then have "Suc i \<in> {1..Suc n}" by auto
    with Suc.prems have
      "\<exists>dst. owner_at db grid x (y - int (Suc i)) = Some dst \<and> dst \<in> fst ` set segs" by blast
    moreover have "y - int (Suc i) = y - 1 - int i" by simp
    ultimately show "\<exists>dst. owner_at db grid x (y - 1 - int i) = Some dst \<and> dst \<in> fst ` set segs1"
      using keys by (simp add: diff_diff_eq)
  qed
  from Suc.IH [OF this, of "next_wordbase wb"] obtain segs' where
    "repeat n (up_step db grid bt fb x) (y - 1, next_wordbase wb, segs1) =
        Inr (y - 1 - int n, word_at n (next_wordbase wb), segs')" by blast
  with s1 show ?case by (simp add: word_at_shift)
qed

lemma walk_addr:
  "repeat n (up_step db grid bt fb x) (y, wb, segs) = Inr (y', wb', segs') \<Longrightarrow>
   inj_on (owner_at db grid x) {y - int n ..< y} \<Longrightarrow>
     (\<forall>i\<in>{1..n}. owner_at db grid x (y - int i) = Some s \<longrightarrow>
        segment_addr segs' s bt = Some (fb, word_at i wb)) \<and>
     (b \<noteq> bt \<or> (\<forall>i\<in>{1..n}. owner_at db grid x (y - int i) \<noteq> Some s) \<longrightarrow>
        segment_addr segs' s b = segment_addr segs s b)"
proof (induction n arbitrary: y wb segs b)
  case 0
  then show ?case by simp
next
  case (Suc n)
  from Suc.prems(1) obtain y1 wb1 segs1 where
    s1: "up_step db grid bt fb x (y, wb, segs) = Inr (y1, wb1, segs1)"
    and r: "repeat n (up_step db grid bt fb x) (y1, wb1, segs1) = Inr (y', wb', segs')"
    by (auto split: sum.splits)
  from up_step_effect [OF s1] obtain dst where
    d: "owner_at db grid x (y - 1) = Some dst" "y1 = y - 1" "wb1 = next_wordbase wb"
      "\<And>s b. segment_addr segs1 s b =
        (if s = dst \<and> b = bt then Some (fb, wb1) else segment_addr segs s b)"
    by blast
  have sub: "{y1 - int n ..< y1} \<subseteq> {y - int (Suc n) ..< y}" using d(2) by auto
  have inj1: "inj_on (owner_at db grid x) {y1 - int n ..< y1}"
    using Suc.prems(2) sub by (rule inj_on_subset)
  from Suc.IH [OF r inj1, where b = b] have
    ih1: "\<And>i. i \<in> {1..n} \<Longrightarrow> owner_at db grid x (y1 - int i) = Some s \<Longrightarrow>
        segment_addr segs' s bt = Some (fb, word_at i wb1)"
    and ih2: "b \<noteq> bt \<or> (\<forall>i\<in>{1..n}. owner_at db grid x (y1 - int i) \<noteq> Some s) \<Longrightarrow>
        segment_addr segs' s b = segment_addr segs1 s b"
    by auto
  from Suc.IH [OF r inj1, where b = bt] have
    ih3: "(\<forall>i\<in>{1..n}. owner_at db grid x (y1 - int i) \<noteq> Some s) \<Longrightarrow>
        segment_addr segs' s bt = segment_addr segs1 s bt"
    by auto
  have first: "owner_at db grid x (y - 1) = Some s \<Longrightarrow>
      \<forall>i\<in>{1..n}. owner_at db grid x (y1 - int i) \<noteq> Some s"
  proof
    fix i assume o: "owner_at db grid x (y - 1) = Some s" and i: "i \<in> {1..n}"
    show "owner_at db grid x (y1 - int i) \<noteq> Some s"
    proof
      assume "owner_at db grid x (y1 - int i) = Some s"
      with o have "owner_at db grid x (y1 - int i) = owner_at db grid x (y - 1)" by simp
      moreover have "y1 - int i \<in> {y - int (Suc n) ..< y}" "y - 1 \<in> {y - int (Suc n) ..< y}"
        using i d(2) by auto
      ultimately have "y1 - int i = y - 1" using Suc.prems(2) by (auto dest: inj_onD)
      with i d(2) show False by auto
    qed
  qed
  show ?case
  proof (intro conjI ballI impI)
    fix i assume i: "i \<in> {1..Suc n}" and o: "owner_at db grid x (y - int i) = Some s"
    show "segment_addr segs' s bt = Some (fb, word_at i wb)"
    proof (cases "i = 1")
      case True
      with o have o1: "owner_at db grid x (y - 1) = Some s" by simp
      with d(1) have "s = dst" by simp
      with ih3 [OF first [OF o1]] d(3,4) True show ?thesis
        by (simp add: word_at_Suc word_at_0)
    next
      case False
      with i have m: "i - 1 \<in> {1..n}" by auto
      have "y1 - int (i - 1) = y - int i" using i d(2) by auto
      with o have "owner_at db grid x (y1 - int (i - 1)) = Some s" by simp
      from ih1 [OF m this] have "segment_addr segs' s bt = Some (fb, word_at (i - 1) wb1)" .
      moreover have "word_at (i - 1) wb1 = word_at i wb"
        using i False d(3) word_at_shift [of "i - 1" wb] by simp
      ultimately show ?thesis by simp
    qed
  next
    assume a: "b \<noteq> bt \<or> (\<forall>i\<in>{1..Suc n}. owner_at db grid x (y - int i) \<noteq> Some s)"
    have "b \<noteq> bt \<or> (\<forall>i\<in>{1..n}. owner_at db grid x (y1 - int i) \<noteq> Some s)"
    proof (cases "b = bt")
      case False
      then show ?thesis by simp
    next
      case True
      with a have all: "\<forall>i\<in>{1..Suc n}. owner_at db grid x (y - int i) \<noteq> Some s" by simp
      have "\<forall>i\<in>{1..n}. owner_at db grid x (y1 - int i) \<noteq> Some s"
      proof
        fix i assume "i \<in> {1..n}"
        then have "Suc i \<in> {1..Suc n}" by auto
        with all have "owner_at db grid x (y - int (Suc i)) \<noteq> Some s" by blast
        moreover have "y - int (Suc i) = y1 - int i" using d(2) by simp
        ultimately show "owner_at db grid x (y1 - int i) \<noteq> Some s" by metis
      qed
      then show ?thesis by simp
    qed
    from ih2 [OF this] have e: "segment_addr segs' s b = segment_addr segs1 s b" .
    have "\<not> (s = dst \<and> b = bt)"
    proof
      assume sd: "s = dst \<and> b = bt"
      with a have "\<forall>i\<in>{1..Suc n}. owner_at db grid x (y - int i) \<noteq> Some s" by simp
      then have "owner_at db grid x (y - int 1) \<noteq> Some s" by (intro bspec [where x = 1]) auto
      with sd d(1) show False by simp
    qed
    with e d(4) show "segment_addr segs' s b = segment_addr segs s b" by simp
  qed
qed

lemma up_step_distinct_keys:
  assumes "up_step db grid bt fb x (y, wb, segs) = Inr (y', wb', segs')" "distinct_keys segs"
  shows "distinct_keys segs'"
proof -
  from up_step_Inr [OF assms(1)] obtain dst sd where
    sd: "map_of segs dst = Some sd"
    and e: "segs' = AList.update dst
               (sd\<lparr>s_baseaddr :=
                    Some (AList.update bt (fb, wb')
                            (case s_baseaddr sd of None \<Rightarrow> [] | Some d \<Rightarrow> d))\<rparr>) segs"
    by blast
  have d: "distinct (map fst (case s_baseaddr sd of None \<Rightarrow> [] | Some d \<Rightarrow> d))"
    using assms(2) sd by (auto simp: distinct_keys_def split: option.splits)
  show ?thesis
    unfolding distinct_keys_def e update_conv'
    using assms(2) d by (auto simp: distinct_keys_def distinct_update)
qed

lemma walk_distinct_keys:
  "repeat n (up_step db grid bt fb x) (y, wb, segs) = Inr (y', wb', segs') \<Longrightarrow>
     distinct_keys segs \<Longrightarrow> distinct_keys segs'"
proof (induction n arbitrary: y wb segs)
  case 0
  then show ?case by simp
next
  case (Suc n)
  from Suc.prems(1) obtain y1 wb1 segs1 where
    s1: "up_step db grid bt fb x (y, wb, segs) = Inr (y1, wb1, segs1)"
    and r: "repeat n (up_step db grid bt fb x) (y1, wb1, segs1) = Inr (y', wb', segs')"
    by (auto split: sum.splits)
  from up_step_distinct_keys [OF s1 Suc.prems(2)] have "distinct_keys segs1" .
  from Suc.IH [OF r this] show ?case .
qed

lemma walk_keeps_addr:
  "repeat n (up_step db grid bt fb x) (y, wb, segs) = Inr (y', wb', segs') \<Longrightarrow>
     segment_addr segs s b \<noteq> None \<Longrightarrow> segment_addr segs' s b \<noteq> None"
proof (induction n arbitrary: y wb segs)
  case 0
  then show ?case by simp
next
  case (Suc n)
  from Suc.prems(1) obtain y1 wb1 segs1 where
    s1: "up_step db grid bt fb x (y, wb, segs) = Inr (y1, wb1, segs1)"
    and r: "repeat n (up_step db grid bt fb x) (y1, wb1, segs1) = Inr (y', wb', segs')"
    by (auto split: sum.splits)
  from up_step_effect [OF s1] obtain dst where
    "\<forall>s b. segment_addr segs1 s b =
        (if s = dst \<and> b = bt then Some (fb, wb1) else segment_addr segs s b)"
    by blast
  then have "segment_addr segs1 s b =
      (if s = dst \<and> b = bt then Some (fb, wb1) else segment_addr segs s b)"
    by blast
  with Suc.prems(2) have "segment_addr segs1 s b \<noteq> None" by (simp split: if_splits)
  from Suc.IH [OF r this] show ?case .
qed

lemma up_step_error: "up_step db grid bt fb x st = Inl e \<Longrightarrow> e = KeyError"
  by (cases st) (auto simp: up_step_owner split: option.splits)

lemma walk_error: "repeat n (up_step db grid bt fb x) st = Inl e \<Longrightarrow> e = KeyError"
proof (induction n arbitrary: st)
  case 0
  then show ?case by simp
next
  case (Suc n)
  show ?case
  proof (cases "up_step db grid bt fb x st")
    case (Inl e')
    with Suc.prems have "e' = e" by simp
    with Inl show ?thesis by (auto dest: up_step_error)
  next
    case (Inr st')
    with Suc.prems have "repeat n (up_step db grid bt fb x) st' = Inl e" by simp
    then show ?thesis by (rule Suc.IH)
  qed
qed

subsection \<open>One source of the vertical pass\<close>

lemma up_item_skip: "fst x \<noteq> ''CLB_IO_CLK'' \<Longrightarrow> up_item db grid seg x s = Inr s"
  by (cases x) (simp add: up_item_def)

lemma up_item_walk:
  assumes "get_inttile db seg = Inr it" "map_of db it = Some itd"
  shows "up_item db grid seg (''CLB_IO_CLK'', (fb, wb)) segs =
     (case repeat 50 (up_step db grid ''CLB_IO_CLK'' fb (t_grid_x itd))
             (t_grid_y itd, wb, segs) of
        Inl e \<Rightarrow> Inl e
      | Inr (y', wb', segs') \<Rightarrow> Inr segs')"
  using assms by (simp add: up_item_def)

lemma up_item_Inr:
  assumes "up_item db grid seg (''CLB_IO_CLK'', (fb, wb)) segs = Inr segs'"
  shows "\<exists>it itd y' wb'. get_inttile db seg = Inr it \<and> map_of db it = Some itd \<and>
     repeat 50 (up_step db grid ''CLB_IO_CLK'' fb (t_grid_x itd)) (t_grid_y itd, wb, segs) =
       Inr (y', wb', segs')"
proof -
  from assms obtain it where it: "get_inttile db seg = Inr it"
    by (cases "get_inttile db seg") (simp_all add: up_item_def)
  from assms it obtain itd where itd: "map_of db it = Some itd"
    by (cases "map_of db it") (simp_all add: up_item_def)
  from assms show ?thesis
    unfolding up_item_walk [OF it itd] using it itd
    by (auto split: sum.splits)
qed

lemma up_segment_item:
  assumes "map_of segs name = Some seg" "s_baseaddr seg = Some b" "distinct (map fst b)"
    "map_of b ''CLB_IO_CLK'' = Some (fb, wb)"
  shows "up_segment db grid name segs = up_item db grid seg (''CLB_IO_CLK'', (fb, wb)) segs"
proof -
  from assms(4) have m: "(''CLB_IO_CLK'', (fb, wb)) \<in> set b" by (rule map_of_SomeD)
  have "for_each (up_item db grid seg) (sorted_items b) segs =
      up_item db grid seg (''CLB_IO_CLK'', (fb, wb)) segs"
    using up_item_skip sorted_items_distinct [OF assms(3)] m
    by (intro for_each_one_active) (simp_all add: sorted_items_set)
  with assms(1,2) show ?thesis by (simp add: up_segment_def)
qed

lemma up_segment_no_clb:
  assumes "map_of segs name = Some seg" "s_baseaddr seg = Some b"
    "map_of b ''CLB_IO_CLK'' = None"
  shows "up_segment db grid name segs = Inr segs"
proof -
  have "\<And>x s. x \<in> set (sorted_items b) \<Longrightarrow> up_item db grid seg x s = Inr s"
  proof -
    fix x :: "block_type \<times> int \<times> int" and s
    assume "x \<in> set (sorted_items b)"
    then have "fst x \<in> fst ` set b" by (simp add: sorted_items_set)
    moreover from assms(3) have "''CLB_IO_CLK'' \<notin> fst ` set b"
      by (simp add: map_of_eq_None_iff)
    ultimately have "fst x \<noteq> ''CLB_IO_CLK''" by metis
    then show "up_item db grid seg x s = Inr s" by (rule up_item_skip)
  qed
  then have "for_each (up_item db grid seg) (sorted_items b) segs = Inr segs"
    by (rule for_each_all_skip)
  with assms(1,2) show ?thesis by (simp add: up_segment_def)
qed

lemma up_segment_walk:
  assumes wf: "distinct_keys segs"
    and a: "segment_addr segs name ''CLB_IO_CLK'' = Some (fb, wb)"
    and t: "map_option s_tiles (map_of segs name) = Some tiles"
    and it: "inttiles db tiles = Inr [it]" and itd: "map_of db it = Some itd"
  shows "up_segment db grid name segs =
     (case repeat 50 (up_step db grid ''CLB_IO_CLK'' fb (t_grid_x itd))
             (t_grid_y itd, wb, segs) of
        Inl e \<Rightarrow> Inl e
      | Inr (y', wb', segs') \<Rightarrow> Inr segs')"
proof -
  from t obtain seg where seg: "map_of segs name = Some seg" "s_tiles seg = tiles" by auto
  from a seg obtain b where b: "s_baseaddr seg = Some b" "map_of b ''CLB_IO_CLK'' = Some (fb, wb)"
    by (auto simp: segment_addr_def split: option.splits)
  from wf seg(1) b(1) have d: "distinct (map fst b)" by (auto simp: distinct_keys_def)
  have g: "get_inttile db seg = Inr it" using it seg(2) by (simp add: get_inttile_def)
  show ?thesis
    unfolding up_segment_item [OF seg(1) b(1) d b(2)] by (rule up_item_walk [OF g itd])
qed

lemma up_segment_shape:
  assumes u: "up_segment db grid name segs = Inr segs'" and wf: "distinct_keys segs"
  shows "map fst segs' = map fst segs \<and>
     (\<forall>s. map_option s_tiles (map_of segs' s) = map_option s_tiles (map_of segs s)) \<and>
     distinct_keys segs' \<and>
     (\<forall>s b. segment_addr segs s b \<noteq> None \<longrightarrow> segment_addr segs' s b \<noteq> None)"
proof -
  from u obtain seg where seg: "map_of segs name = Some seg"
    by (cases "map_of segs name") (simp_all add: up_segment_def)
  from u seg obtain b where b: "s_baseaddr seg = Some b"
    by (cases "s_baseaddr seg") (simp_all add: up_segment_def)
  from wf seg b have d: "distinct (map fst b)" unfolding distinct_keys_def by blast
  show ?thesis
  proof (cases "map_of b ''CLB_IO_CLK''")
    case None
    from up_segment_no_clb [OF seg b None] u have "segs' = segs" by simp
    with wf show ?thesis by simp
  next
    case (Some v)
    obtain fb wb where v: "v = (fb, wb)" by (cases v)
    from Some v have c: "map_of b ''CLB_IO_CLK'' = Some (fb, wb)" by simp
    from u have "up_item db grid seg (''CLB_IO_CLK'', (fb, wb)) segs = Inr segs'"
      unfolding up_segment_item [OF seg b d c] .
    from up_item_Inr [OF this] obtain itd :: tile and y' wb' where
      w: "repeat 50 (up_step db grid ''CLB_IO_CLK'' fb (t_grid_x itd)) (t_grid_y itd, wb, segs) =
            Inr (y', wb', segs')"
      by blast
    from walk_Inr [OF w] walk_distinct_keys [OF w wf] walk_keeps_addr [OF w]
    show ?thesis by blast
  qed
qed

lemma up_segment_column_iff:
  assumes 1: "map_of segs name = Some seg" "s_baseaddr seg = Some b" "distinct (map fst b)"
      "map_of b ''CLB_IO_CLK'' = Some (fb, wb)"
    and 2: "get_inttile db seg = Inr it" "map_of db it = Some itd"
  shows "(\<exists>segs'. up_segment db grid name segs = Inr segs') \<longleftrightarrow>
      (\<forall>i\<in>{1..50}. \<exists>dst. owner_at db grid (t_grid_x itd) (t_grid_y itd - int i) = Some dst \<and>
          dst \<in> fst ` set segs)"
proof
  let ?walk = "repeat 50 (up_step db grid ''CLB_IO_CLK'' fb (t_grid_x itd))
      (t_grid_y itd, wb, segs)"
  have e: "up_segment db grid name segs =
      (case ?walk of Inl e \<Rightarrow> Inl e | Inr (y', wb', segs') \<Rightarrow> Inr segs')"
    unfolding up_segment_item [OF 1] by (rule up_item_walk [OF 2])
  {
    assume "\<exists>segs'. up_segment db grid name segs = Inr segs'"
    then obtain y' wb' segs' where "?walk = Inr (y', wb', segs')"
      unfolding e by (auto split: sum.splits)
    from walk_Inr [OF this]
    show "\<forall>i\<in>{1..50}. \<exists>dst.
        owner_at db grid (t_grid_x itd) (t_grid_y itd - int i) = Some dst \<and>
        dst \<in> fst ` set segs"
      by simp
  next
    assume "\<forall>i\<in>{1..50}. \<exists>dst.
        owner_at db grid (t_grid_x itd) (t_grid_y itd - int i) = Some dst \<and>
        dst \<in> fst ` set segs"
    from walk_total [OF this, where bt = "''CLB_IO_CLK''" and fb = fb and wb = wb]
    show "\<exists>segs'. up_segment db grid name segs = Inr segs'"
      unfolding e by auto
  }
qed

lemma up_segment_column_missing:
  assumes 1: "map_of segs name = Some seg" "s_baseaddr seg = Some b" "distinct (map fst b)"
      "map_of b ''CLB_IO_CLK'' = Some (fb, wb)"
    and 2: "get_inttile db seg = Inr it" "map_of db it = Some itd"
    and i: "i \<in> {1..50}"
    and m: "map_of grid (t_grid_x itd, t_grid_y itd - int i) = None \<or>
        (\<exists>t td. map_of grid (t_grid_x itd, t_grid_y itd - int i) = Some t \<and>
           map_of db t = Some td \<and> t_segment td = None)"
  shows "up_segment db grid name segs = Inl KeyError"
proof -
  let ?walk = "repeat 50 (up_step db grid ''CLB_IO_CLK'' fb (t_grid_x itd))
      (t_grid_y itd, wb, segs)"
  have e: "up_segment db grid name segs =
      (case ?walk of Inl e \<Rightarrow> Inl e | Inr (y', wb', segs') \<Rightarrow> Inr segs')"
    unfolding up_segment_item [OF 1] by (rule up_item_walk [OF 2])
  from m have "owner_at db grid (t_grid_x itd) (t_grid_y itd - int i) = None"
    unfolding owner_at_None by blast
  then have "\<not> (\<exists>dst. owner_at db grid (t_grid_x itd) (t_grid_y itd - int i) = Some dst \<and>
      dst \<in> fst ` set segs)" by simp
  with i have "\<not> (\<forall>i\<in>{1..50}. \<exists>dst.
      owner_at db grid (t_grid_x itd) (t_grid_y itd - int i) = Some dst \<and>
      dst \<in> fst ` set segs)" by blast
  then have n: "\<not> (\<exists>segs'. up_segment db grid name segs = Inr segs')"
    unfolding up_segment_column_iff [OF 1 2] .
  show ?thesis
  proof (cases ?walk)
    case (Inl err)
    from walk_error [OF Inl] Inl show ?thesis unfolding e by simp
  next
    case (Inr r)
    with n show ?thesis unfolding e by (cases r) simp
  qed
qed

subsection \<open>All sources of the vertical pass\<close>

lemma for_each_members:
  assumes step: "\<And>x s s'. I s \<Longrightarrow> body x s = Inr s' \<Longrightarrow> I s'"
  shows "for_each body xs s = Inr s' \<Longrightarrow> I s \<Longrightarrow>
     (\<forall>x\<in>set xs. \<exists>s1 s2. I s1 \<and> body x s1 = Inr s2)"
proof (induction xs arbitrary: s)
  case Nil
  then show ?case by simp
next
  case (Cons x xs)
  from Cons.prems(1) obtain s1 where
    b: "body x s = Inr s1" and r: "for_each body xs s1 = Inr s'"
    by (auto split: sum.splits)
  from step [OF Cons.prems(2) b] have "I s1" .
  from Cons.IH [OF r this] b Cons.prems(2) show ?case by auto
qed

lemma get_inttile_tiles: "s_tiles seg1 = s_tiles seg \<Longrightarrow> get_inttile db seg1 = get_inttile db seg"
  by (simp add: get_inttile_def)

lemma up_pass_needs_columns:
  assumes p: "seg_base_addr_up_INT db segs grid = Inr segs'" and wf: "distinct_keys segs"
    and seg: "map_of segs name = Some seg"
    and a: "segment_addr segs name ''CLB_IO_CLK'' \<noteq> None"
  shows "\<exists>it itd. get_inttile db seg = Inr it \<and> map_of db it = Some itd \<and>
     (\<forall>i\<in>{1..50}. \<exists>dst. owner_at db grid (t_grid_x itd) (t_grid_y itd - int i) = Some dst \<and>
         dst \<in> fst ` set segs)"
proof -
  define I where "I = (\<lambda>s. map fst s = map fst segs \<and>
     (\<forall>n. map_option s_tiles (map_of s n) = map_option s_tiles (map_of segs n)) \<and>
     distinct_keys s \<and>
     (\<forall>n b. segment_addr segs n b \<noteq> None \<longrightarrow> segment_addr s n b \<noteq> None))"
  have step: "\<And>x s s'. I s \<Longrightarrow> up_segment db grid x s = Inr s' \<Longrightarrow> I s'"
  proof -
    fix x s s'
    assume i: "I s" and u: "up_segment db grid x s = Inr s'"
    from i have wfs: "distinct_keys s" by (simp add: I_def)
    from up_segment_shape [OF u wfs] i show "I s'" by (simp add: I_def)
  qed
  from a seg have "s_baseaddr seg \<noteq> None"
    by (auto simp: segment_addr_def split: option.splits)
  moreover from seg have "(name, seg) \<in> set segs" by (rule map_of_SomeD)
  ultimately have m: "name \<in> set (sort (src_segment_names segs))"
    by (force simp: src_segment_names_def)
  have i0: "I segs" using wf by (simp add: I_def)
  from p have fe: "for_each (up_segment db grid) (sort (src_segment_names segs)) segs =
      Inr segs'"
    by (simp add: seg_base_addr_up_INT_def)
  have "\<forall>x\<in>set (sort (src_segment_names segs)).
      \<exists>s1 s2. I s1 \<and> up_segment db grid x s1 = Inr s2"
    by (rule for_each_members [of I "up_segment db grid", OF _ fe i0]) (rule step)
  with m obtain s1 s2 where "I s1" and u: "up_segment db grid name s1 = Inr s2"
    by blast
  then have i1: "map fst s1 = map fst segs \<and>
     (\<forall>n. map_option s_tiles (map_of s1 n) = map_option s_tiles (map_of segs n)) \<and>
     distinct_keys s1 \<and>
     (\<forall>n b. segment_addr segs n b \<noteq> None \<longrightarrow> segment_addr s1 n b \<noteq> None)"
    by (simp add: I_def)
  from i1 have "map_option s_tiles (map_of s1 name) = map_option s_tiles (map_of segs name)"
    by blast
  with seg obtain seg1 where seg1: "map_of s1 name = Some seg1" "s_tiles seg1 = s_tiles seg"
    by (cases "map_of s1 name") auto
  from i1 a have "segment_addr s1 name ''CLB_IO_CLK'' \<noteq> None" by blast
  with seg1 obtain b fb wb where b: "s_baseaddr seg1 = Some b"
    and c: "map_of b ''CLB_IO_CLK'' = Some (fb, wb)"
    by (auto simp: segment_addr_def split: option.splits)
  from i1 seg1 b have d: "distinct (map fst b)" unfolding distinct_keys_def by blast
  from u have "up_item db grid seg1 (''CLB_IO_CLK'', (fb, wb)) s1 = Inr s2"
    unfolding up_segment_item [OF seg1(1) b d c] .
  from up_item_Inr [OF this] obtain it itd y' wb' where
    it: "get_inttile db seg1 = Inr it" "map_of db it = Some itd"
    and w: "repeat 50 (up_step db grid ''CLB_IO_CLK'' fb (t_grid_x itd)) (t_grid_y itd, wb, s1) =
            Inr (y', wb', s2)"
    by blast
  from walk_Inr [OF w] have
    "\<forall>i\<in>{1..50}. \<exists>dst. owner_at db grid (t_grid_x itd) (t_grid_y itd - int i) = Some dst \<and>
         dst \<in> fst ` set s1"
    by simp
  moreover from i1 have "fst ` set s1 = fst ` set segs" by (metis set_map)
  moreover from it(1) have "get_inttile db seg = Inr it"
    using get_inttile_tiles [OF seg1(2)] by simp
  ultimately show ?thesis using it(2) by auto
qed

subsection \<open>The column of 52 rows\<close>

lemma digit_char_inj:
  assumes "a < 10" "b < 10" "digit_char a = digit_char b"
  shows "a = b"
proof -
  have "a \<in> {0, 1, 2, 3, 4, 5, 6, 7, 8, 9}" "b \<in> {0, 1, 2, 3, 4, 5, 6, 7, 8, 9}"
    using assms(1,2) by auto
  with assms(3) show ?thesis
    by (auto simp: digit_char_def)
qed

lemma dec_nonempty: "dec n \<noteq> []"
  by (subst dec.simps) simp

lemma dec_last: "last (dec n) = digit_char (n mod 10)"
  by (subst dec.simps) simp

lemma dec_butlast: "butlast (dec n) = (if n < 10 then [] else dec (n div 10))"
  by (subst dec.simps) (simp add: butlast_append)

lemma dec_inj: "dec m = dec n \<Longrightarrow> m = n"
proof (induction m arbitrary: n rule: dec.induct)
  case (1 m)
  from "1.prems" have "last (dec m) = last (dec n)" by simp
  then have "digit_char (m mod 10) = digit_char (n mod 10)" by (simp add: dec_last)
  then have md: "m mod 10 = n mod 10" by (intro digit_char_inj) simp_all
  from "1.prems" have bl: "butlast (dec m) = butlast (dec n)" by simp
  show ?case
  proof (cases "m < 10")
    case True
    with bl have "n < 10" using dec_nonempty [of "n div 10"]
      by (auto simp: dec_butlast split: if_splits)
    with True md show ?thesis by simp
  next
    case False
    with bl have n: "\<not> n < 10" using dec_nonempty [of "m div 10"]
      by (auto simp: dec_butlast split: if_splits)
    with False bl have "dec (m div 10) = dec (n div 10)" by (simp add: dec_butlast)
    with "1.IH" False have "m div 10 = n div 10" by simp
    with md show ?thesis by (metis div_mult_mod_eq)
  qed
qed

lemma col_names:
  "col_cname i = col_cname j \<longleftrightarrow> i = j"
  "col_iname i = col_iname j \<longleftrightarrow> i = j"
  "col_sname i = col_sname j \<longleftrightarrow> i = j"
  "col_cname i \<noteq> col_iname j"
  "col_iname i \<noteq> col_cname j"
  by (auto simp: col_cname_def col_iname_def col_sname_def dest: dec_inj)

lemma map_of_map_key:
  "inj_on f (insert k (set xs)) \<Longrightarrow>
     map_of (map (\<lambda>j. (f j, g j)) xs) (f k) = (if k \<in> set xs then Some (g k) else None)"
proof (induction xs)
  case Nil
  then show ?case by simp
next
  case (Cons a xs)
  from Cons.prems have i: "inj_on f (insert k (set xs))"
    by (rule inj_on_subset) auto
  from Cons.prems have "f a = f k \<longleftrightarrow> a = k" by (auto simp: inj_on_def)
  with Cons.IH [OF i] show ?case by auto
qed

lemma map_of_map_other:
  "(\<And>j. f j \<noteq> key) \<Longrightarrow> map_of (map (\<lambda>j. (f j, g j)) xs) key = None"
  by (induction xs) auto

lemma col_database_int:
  "j < 52 \<Longrightarrow> map_of col_database (col_iname j) = Some (col_int j)"
proof -
  assume j: "j < 52"
  have 1: "map_of (map (\<lambda>j. (col_cname j, col_clb j)) [0..<52]) (col_iname j) = None"
    by (rule map_of_map_other) (simp add: col_names)
  have "inj_on col_iname (insert j (set [0..<52]))" by (simp add: inj_on_def col_names)
  from map_of_map_key [OF this, of col_int] j
  have 2: "map_of (map (\<lambda>j. (col_iname j, col_int j)) [0..<52]) (col_iname j) = Some (col_int j)"
    by simp
  show ?thesis unfolding col_database_def map_of_append using 1 2 by (simp add: map_add_def)
qed

lemma col_database_clb:
  "j < 52 \<Longrightarrow> map_of col_database (col_cname j) = Some (col_clb j)"
proof -
  assume j: "j < 52"
  have "inj_on col_cname (insert j (set [0..<52]))" by (simp add: inj_on_def col_names)
  from map_of_map_key [OF this, of col_clb] j
  have 2: "map_of (map (\<lambda>j. (col_cname j, col_clb j)) [0..<52]) (col_cname j) = Some (col_clb j)"
    by simp
  show ?thesis unfolding col_database_def map_of_append using 2 by (simp add: map_add_def)
qed

lemma col_grid_int:
  assumes "0 \<le> y" "y \<le> 51"
  shows "map_of col_grid (1, y) = Some (col_iname (nat (51 - y)))"
proof -
  let ?k = "nat (51 - y)"
  have k: "?k < 52" "(1 :: int, 51 - int ?k) = (1, y)" using assms by auto
  have 1: "map_of (map (\<lambda>j. ((0 :: int, 51 - int j), col_cname j)) [0..<52]) (1, y) = None"
    by (rule map_of_map_other) simp
  have "inj_on (\<lambda>j. (1 :: int, 51 - int j)) (insert ?k (set [0..<52]))"
    by (simp add: inj_on_def)
  from map_of_map_key [OF this, of col_iname] k(1)
  have "map_of (map (\<lambda>j. ((1 :: int, 51 - int j), col_iname j)) [0..<52]) (1, 51 - int ?k) =
      Some (col_iname ?k)" by simp
  then have 2: "map_of (map (\<lambda>j. ((1 :: int, 51 - int j), col_iname j)) [0..<52]) (1, y) =
      Some (col_iname ?k)" unfolding k(2) .
  show ?thesis unfolding col_grid_def map_of_append using 1 2 by (simp add: map_add_def)
qed

lemma col_grid_outside:
  assumes "y < 0 \<or> 51 < y"
  shows "map_of col_grid (1, y) = None"
proof -
  have "(1, y) \<notin> fst ` set col_grid"
    using assms by (auto simp: col_grid_def)
  then show ?thesis by (simp add: map_of_eq_None_iff)
qed

lemma col_owner:
  "0 \<le> y \<Longrightarrow> y \<le> 51 \<Longrightarrow> owner_at col_database col_grid 1 y = Some (col_sname (nat (51 - y)))"
  by (simp add: owner_at_def col_grid_int col_database_int col_int_def)

lemma col_owner_outside:
  "y < 0 \<or> 51 < y \<Longrightarrow> owner_at col_database col_grid 1 y = None"
  by (simp add: owner_at_def col_grid_outside)

lemma col_segments_lookup:
  "j < 52 \<Longrightarrow> map_of (col_segments seed) (col_sname j) = Some (col_segment seed j)"
proof -
  assume j: "j < 52"
  have "inj_on col_sname (insert j (set [0..<52]))" by (simp add: inj_on_def col_names)
  from map_of_map_key [OF this, of "col_segment seed"] j
  show ?thesis by (simp add: col_segments_def)
qed

lemma col_segments_names: "map fst (col_segments seed) = map col_sname [0..<52]"
  by (simp add: col_segments_def o_def)

lemma col_segments_keys: "fst ` set (col_segments seed) = col_sname ` {..<52}"
proof -
  have "fst ` set (col_segments seed) = set (map fst (col_segments seed))" by simp
  also have "\<dots> = col_sname ` {..<52}"
    unfolding col_segments_names by (simp add: atLeast0LessThan)
  finally show ?thesis .
qed

lemma col_get_inttile:
  "j < 52 \<Longrightarrow> inttiles col_database [col_cname j, col_iname j] = Inr [col_iname j]"
  by (simp add: col_database_int col_database_clb col_clb_def col_int_def)

lemma filter_less_upt: "k \<le> n \<Longrightarrow> filter (\<lambda>j. j < k) [0..<n] = [0..<k]"
proof (induction n)
  case 0
  then show ?case by simp
next
  case (Suc n)
  show ?case
  proof (cases "k = Suc n")
    case True
    have "filter (\<lambda>j. j < Suc n) [0..<Suc n] = [0..<Suc n]"
      by (rule filter_True) simp
    with True show ?thesis by simp
  next
    case False
    with Suc.prems have "k \<le> n" by simp
    with Suc.IH show ?thesis by simp
  qed
qed

lemma col_src_names:
  "src_segment_names (col_segments (col_seed b)) = [col_sname 0, col_sname 1]"
proof -
  have "src_segment_names (col_segments (col_seed b)) =
      map col_sname (filter (\<lambda>j. col_seed b j \<noteq> None) [0..<52])"
    by (simp add: src_segment_names_def col_segments_def filter_map o_def col_segment_def)
  also have "(\<lambda>j. col_seed b j \<noteq> None) = (\<lambda>j. j < 2)"
    by (auto simp: col_seed_def)
  also have "filter (\<lambda>j. j < 2) [0..<52] = [0..<2]" by (rule filter_less_upt) simp
  also have "[0..<2] = [0, 1 :: nat]" by (simp add: upt_rec)
  finally show ?thesis by simp
qed

lemma col_sorted_names: "sort [col_sname 0, col_sname 1] = [col_sname 0, col_sname 1]"
  by (simp add: col_sname_def col_cname_def dec_digit digit_char_def)

lemma col_distinct_keys:
  assumes "distinct (map fst b)"
  shows "distinct_keys (col_segments (col_seed b))"
  unfolding distinct_keys_def
proof (intro allI impI)
  fix s sd d
  assume a: "map_of (col_segments (col_seed b)) s = Some sd \<and> s_baseaddr sd = Some d"
  then have "(s, sd) \<in> set (col_segments (col_seed b))" by (auto dest: map_of_SomeD)
  then obtain j where "sd = col_segment (col_seed b) j" by (auto simp: col_segments_def)
  with a have "col_seed b j = Some d" by (simp add: col_segment_def)
  with assms show "distinct (map fst d)" by (auto simp: col_seed_def split: if_splits)
qed

lemma col_segment_addr:
  "j < 52 \<Longrightarrow> segment_addr (col_segments seed) (col_sname j) bt =
     (case seed j of None \<Rightarrow> None | Some d \<Rightarrow> map_of d bt)"
  by (simp add: segment_addr_def col_segments_lookup col_segment_def)

lemma col_column_ok:
  assumes "fst ` set segs = col_sname ` {..<52}" "50 \<le> y" "y \<le> 51"
  shows "\<forall>i\<in>{1..50}. \<exists>dst. owner_at col_database col_grid 1 (y - int i) = Some dst \<and>
           dst \<in> fst ` set segs"
proof
  fix i :: nat assume i: "i \<in> {1..50}"
  then have r: "0 \<le> y - int i" "y - int i \<le> 51" using assms(2,3) by auto
  have "nat (51 - (y - int i)) < 52" using r by auto
  then have "col_sname (nat (51 - (y - int i))) \<in> fst ` set segs"
    unfolding assms(1) by blast
  with col_owner [OF r] show "\<exists>dst. owner_at col_database col_grid 1 (y - int i) = Some dst \<and>
           dst \<in> fst ` set segs" by simp
qed

lemma col_owner_inj: "inj_on (owner_at col_database col_grid 1) {0..51}"
proof (rule inj_onI)
  fix y y' :: int
  assume a: "y \<in> {0..51}" "y' \<in> {0..51}"
    "owner_at col_database col_grid 1 y = owner_at col_database col_grid 1 y'"
  then have "col_sname (nat (51 - y)) = col_sname (nat (51 - y'))"
    by (simp add: col_owner)
  then have "nat (51 - y) = nat (51 - y')" by (simp add: col_names)
  with a(1,2) show "y = y'" by auto
qed

text \<open>
  The vertical pass on the column, whatever the row above the bottom row holds: both
  seeded rows are sources, the bottom row first. Its walk covers rows 1 to 50 and leaves
  row 51 alone; the walk of row 1 starts from the word offset 2 that the first walk has
  just stored there, and reaches row 51.
\<close>

lemma col_pass:
  assumes d: "distinct (map fst b)"
  shows "\<exists>segs2. seg_base_addr_up_INT col_database (col_segments (col_seed b)) col_grid =
           Inr segs2 \<and>
         segment_addr segs2 (col_sname 1) ''CLB_IO_CLK'' = Some (0x00400000, 2) \<and>
         segment_addr segs2 (col_sname 51) ''CLB_IO_CLK'' = Some (0x00400000, 101) \<and>
         (\<exists>segs1. up_segment col_database col_grid (col_sname 0)
              (col_segments (col_seed b)) = Inr segs1 \<and>
            segment_addr segs1 (col_sname 51) ''CLB_IO_CLK'' = None \<and>
            up_segment col_database col_grid (col_sname 1) segs1 = Inr segs2)"
proof -
  let ?A = "0x00400000 :: int"
  let ?segs0 = "col_segments (col_seed b)"
  let ?step = "up_step col_database col_grid ''CLB_IO_CLK'' ?A 1"
  have k0: "fst ` set ?segs0 = col_sname ` {..<52}" by (rule col_segments_keys)
  have wf0: "distinct_keys ?segs0" by (rule col_distinct_keys [OF d])
  have a0: "segment_addr ?segs0 (col_sname 0) ''CLB_IO_CLK'' = Some (?A, 0)"
    by (simp add: col_segment_addr col_seed_def)
  have t0: "map_option s_tiles (map_of ?segs0 (col_sname 0)) = Some [col_cname 0, col_iname 0]"
    by (simp add: col_segments_lookup col_segment_def)
  have it0: "inttiles col_database [col_cname 0, col_iname 0] = Inr [col_iname 0]"
    by (rule col_get_inttile) simp
  have itd0: "map_of col_database (col_iname 0) = Some (col_int 0)"
    by (rule col_database_int) simp
  from walk_total [OF col_column_ok [OF k0, of 51], of "''CLB_IO_CLK''" ?A 0]
  obtain segs1 where w0: "repeat 50 ?step (51, 0, ?segs0) = Inr (51 - int 50, word_at 50 0, segs1)"
    by auto
  have u0: "up_segment col_database col_grid (col_sname 0) ?segs0 = Inr segs1"
    unfolding up_segment_walk [OF wf0 a0 t0 it0 itd0] using w0 by (simp add: col_int_def)
  from walk_Inr [OF w0] have keys1: "map fst segs1 = map fst ?segs0"
    and tiles1: "\<And>s. map_option s_tiles (map_of segs1 s) = map_option s_tiles (map_of ?segs0 s)"
    by auto
  have k1: "fst ` set segs1 = col_sname ` {..<52}"
    using keys1 k0 by (metis set_map)
  have wf1: "distinct_keys segs1" by (rule walk_distinct_keys [OF w0 wf0])
  have inj0: "inj_on (owner_at col_database col_grid 1) {51 - int 50 ..< 51}"
    by (rule inj_on_subset [OF col_owner_inj]) auto
  have o50: "owner_at col_database col_grid 1 (51 - int 1) = Some (col_sname 1)"
    using col_owner [of 50] by simp
  have no51: "\<forall>i\<in>{1..50}. owner_at col_database col_grid 1 (51 - int i) \<noteq> Some (col_sname 51)"
  proof
    fix i :: nat assume i: "i \<in> {1..50}"
    then have "owner_at col_database col_grid 1 (51 - int i) =
        Some (col_sname (nat (51 - (51 - int i))))" by (intro col_owner) auto
    moreover have "nat (51 - (51 - int i)) \<noteq> 51" using i by auto
    ultimately show "owner_at col_database col_grid 1 (51 - int i) \<noteq> Some (col_sname 51)"
      by (simp add: col_names)
  qed
  from walk_addr [OF w0 inj0, of "col_sname 51" "''CLB_IO_CLK''"] no51
  have "segment_addr segs1 (col_sname 51) ''CLB_IO_CLK'' =
      segment_addr ?segs0 (col_sname 51) ''CLB_IO_CLK''" by blast
  then have e51: "segment_addr segs1 (col_sname 51) ''CLB_IO_CLK'' = None"
    by (simp add: col_segment_addr col_seed_def)
  from walk_addr [OF w0 inj0, of "col_sname 1"] o50
  have "segment_addr segs1 (col_sname 1) ''CLB_IO_CLK'' = Some (?A, word_at 1 0)"
    by (auto simp del: of_nat_Suc)
  then have a1: "segment_addr segs1 (col_sname 1) ''CLB_IO_CLK'' = Some (?A, 2)"
    by (simp add: word_at_def next_wordbase_def)
  have t1: "map_option s_tiles (map_of segs1 (col_sname 1)) = Some [col_cname 1, col_iname 1]"
    unfolding tiles1 by (simp add: col_segments_lookup col_segment_def)
  have it1: "inttiles col_database [col_cname 1, col_iname 1] = Inr [col_iname 1]"
    by (rule col_get_inttile) simp
  have itd1: "map_of col_database (col_iname 1) = Some (col_int 1)"
    by (rule col_database_int) simp
  from walk_total [OF col_column_ok [OF k1, of 50], of "''CLB_IO_CLK''" ?A 2]
  obtain segs2 where w1: "repeat 50 ?step (50, 2, segs1) = Inr (50 - int 50, word_at 50 2, segs2)"
    by auto
  have u1: "up_segment col_database col_grid (col_sname 1) segs1 = Inr segs2"
    unfolding up_segment_walk [OF wf1 a1 t1 it1 itd1] using w1 by (simp add: col_int_def)
  have inj1: "inj_on (owner_at col_database col_grid 1) {50 - int 50 ..< 50}"
    by (rule inj_on_subset [OF col_owner_inj]) auto
  have o0: "owner_at col_database col_grid 1 (50 - int 50) = Some (col_sname 51)"
    using col_owner [of 0] by simp
  from walk_addr [OF w1 inj1, of "col_sname 51"] o0
  have "segment_addr segs2 (col_sname 51) ''CLB_IO_CLK'' = Some (?A, word_at 50 2)"
    by (auto simp del: of_nat_numeral)
  then have a51: "segment_addr segs2 (col_sname 51) ''CLB_IO_CLK'' = Some (?A, 101)"
    by (simp add: word_at_50_2)
  have no1: "\<forall>i\<in>{1..50}. owner_at col_database col_grid 1 (50 - int i) \<noteq> Some (col_sname 1)"
  proof
    fix i :: nat assume i: "i \<in> {1..50}"
    then have "owner_at col_database col_grid 1 (50 - int i) =
        Some (col_sname (nat (51 - (50 - int i))))" by (intro col_owner) auto
    moreover have "nat (51 - (50 - int i)) \<noteq> 1" using i by auto
    ultimately show "owner_at col_database col_grid 1 (50 - int i) \<noteq> Some (col_sname 1)"
      by (simp add: col_names)
  qed
  from walk_addr [OF w1 inj1, of "col_sname 1" "''CLB_IO_CLK''"] no1
  have "segment_addr segs2 (col_sname 1) ''CLB_IO_CLK'' =
      segment_addr segs1 (col_sname 1) ''CLB_IO_CLK''" by blast
  with a1 have a2: "segment_addr segs2 (col_sname 1) ''CLB_IO_CLK'' = Some (?A, 2)" by simp
  have names: "sort (src_segment_names ?segs0) = [col_sname 0, col_sname 1]"
    unfolding col_src_names by (rule col_sorted_names)
  have "seg_base_addr_up_INT col_database ?segs0 col_grid = Inr segs2"
    by (simp only: seg_base_addr_up_INT_def names for_each.simps u0 u1 sum.case)
  with a2 a51 u0 e51 u1 show ?thesis by blast
qed

subsection \<open>The walk\<close>

text \<open>
  Claim C3. A \<^verbatim>\<open>CLB_IO_CLK\<close> item \<open>(fb, wb)\<close> of a source segment is walked from the
  row \<open>y\<close> of the interconnect tile of the segment, in 50 steps. When the 50 steps
  succeed they end at row \<open>y - 50\<close>; step \<open>i\<close> (from 0) starts at row \<open>y - i\<close> with word
  offset \<open>word_at i wb\<close>, moves to row \<open>y - i - 1\<close> and stores \<open>fb\<close> with
  \<open>word_at (Suc i) wb\<close> in the segment that owns the tile there. The offsets start at
  \<open>wb\<close> and advance by 1 from the value 50, by 2 from any other value. A walk whose
  offsets never equal 50 ends at \<open>wb + 100\<close>; a walk that meets 50 meets it at one step
  only and ends at \<open>wb + 99\<close>.
\<close>

theorem up_walk_offsets:
  "(up_item db grid seg (''CLB_IO_CLK'', (fb, wb)) segs = Inr segs' \<longrightarrow>
      (\<exists>it itd y' wb'. get_inttile db seg = Inr it \<and> map_of db it = Some itd \<and>
         repeat 50 (up_step db grid ''CLB_IO_CLK'' fb (t_grid_x itd)) (t_grid_y itd, wb, segs) =
           Inr (y', wb', segs'))) \<and>
   (repeat 50 (up_step db grid bt fb x) (y, wb, segs) = Inr (y', wb', segs') \<longrightarrow>
      y' = y - 50 \<and> wb' = word_at 50 wb \<and>
      (\<forall>i<50. \<exists>segs1 segs2 dst.
         repeat i (up_step db grid bt fb x) (y, wb, segs) =
           Inr (y - int i, word_at i wb, segs1) \<and>
         up_step db grid bt fb x (y - int i, word_at i wb, segs1) =
           Inr (y - int i - 1, word_at (Suc i) wb, segs2) \<and>
         owner_at db grid x (y - int i - 1) = Some dst \<and>
         segment_addr segs2 dst bt = Some (fb, word_at (Suc i) wb)) \<and>
      ((\<forall>i<50. word_at i wb \<noteq> 50) \<longrightarrow> wb' = wb + 100) \<and>
      ((\<exists>i<50. word_at i wb = 50) \<longrightarrow>
         wb' = wb + 99 \<and> (\<exists>!i. i < 50 \<and> word_at i wb = 50))) \<and>
   word_at 0 wb = wb \<and>
   (\<forall>i. word_at (Suc i) wb =
      (if word_at i wb = 50 then word_at i wb + 1 else word_at i wb + 2))"
proof (intro conjI impI allI)
  assume "up_item db grid seg (''CLB_IO_CLK'', (fb, wb)) segs = Inr segs'"
  then show "\<exists>it itd y' wb'. get_inttile db seg = Inr it \<and> map_of db it = Some itd \<and>
         repeat 50 (up_step db grid ''CLB_IO_CLK'' fb (t_grid_x itd)) (t_grid_y itd, wb, segs) =
           Inr (y', wb', segs')"
    by (rule up_item_Inr)
next
  show "word_at 0 wb = wb" by (rule word_at_0)
next
  fix i
  show "word_at (Suc i) wb =
      (if word_at i wb = 50 then word_at i wb + 1 else word_at i wb + 2)"
    by (rule word_at_step)
next
  assume w: "repeat 50 (up_step db grid bt fb x) (y, wb, segs) = Inr (y', wb', segs')"
  from walk_Inr [OF w] show "y' = y - 50" by simp
next
  assume w: "repeat 50 (up_step db grid bt fb x) (y, wb, segs) = Inr (y', wb', segs')"
  from walk_Inr [OF w] show "wb' = word_at 50 wb" by simp
next
  fix i :: nat
  assume w: "repeat 50 (up_step db grid bt fb x) (y, wb, segs) = Inr (y', wb', segs')"
    and i: "i < 50"
  from repeat_prefix [OF w, of i] i obtain s1 where
    p: "repeat i (up_step db grid bt fb x) (y, wb, segs) = Inr s1"
    by auto
  obtain y1 wb1 segs1 where s1: "s1 = (y1, wb1, segs1)" by (cases s1) auto
  from walk_Inr [OF p [unfolded s1]] have e1: "y1 = y - int i" "wb1 = word_at i wb" by auto
  from repeat_prefix [OF w, of "Suc i"] i obtain s2 where
    q: "repeat (Suc i) (up_step db grid bt fb x) (y, wb, segs) = Inr s2"
    by auto
  have "repeat (i + 1) (up_step db grid bt fb x) (y, wb, segs) = Inr s2" using q by simp
  then have st: "up_step db grid bt fb x s1 = Inr s2"
    unfolding repeat_add using p by (auto split: sum.splits)
  obtain y2 wb2 segs2 where s2: "s2 = (y2, wb2, segs2)" by (cases s2) auto
  from up_step_effect [OF st [unfolded s1 s2]] obtain dst where
    d: "owner_at db grid x (y1 - 1) = Some dst" "y2 = y1 - 1" "wb2 = next_wordbase wb1"
      "segment_addr segs2 dst bt = Some (fb, wb2)"
    by auto
  show "\<exists>segs1 segs2 dst.
         repeat i (up_step db grid bt fb x) (y, wb, segs) =
           Inr (y - int i, word_at i wb, segs1) \<and>
         up_step db grid bt fb x (y - int i, word_at i wb, segs1) =
           Inr (y - int i - 1, word_at (Suc i) wb, segs2) \<and>
         owner_at db grid x (y - int i - 1) = Some dst \<and>
         segment_addr segs2 dst bt = Some (fb, word_at (Suc i) wb)"
    using p st d e1 unfolding s1 s2 by (auto simp: word_at_Suc)
next
  assume w: "repeat 50 (up_step db grid bt fb x) (y, wb, segs) = Inr (y', wb', segs')"
    and n: "\<forall>i<50. word_at i wb \<noteq> 50"
  from walk_Inr [OF w] have "wb' = word_at 50 wb" by simp
  with word_at_total [of 50 wb] n show "wb' = wb + 100" by simp
next
  assume w: "repeat 50 (up_step db grid bt fb x) (y, wb, segs) = Inr (y', wb', segs')"
    and n: "\<exists>i<50. word_at i wb = 50"
  from walk_Inr [OF w] have "wb' = word_at 50 wb" by simp
  with word_at_total [of 50 wb] n show "wb' = wb + 99" by simp
next
  assume n: "\<exists>i<50. word_at i wb = 50"
  then obtain i where i: "i < 50" "word_at i wb = 50" by blast
  show "\<exists>!i. i < 50 \<and> word_at i wb = 50"
  proof (rule ex1I [of _ i])
    show "i < 50 \<and> word_at i wb = 50" using i by simp
  next
    fix j assume "j < 50 \<and> word_at j wb = 50"
    with i(2) have "word_at j wb = word_at i wb" by simp
    then show "j = i" by (rule word_at_inj)
  qed
qed

text \<open>
  On the column, the 50 steps from the bottom row succeed from word offset 0, where 50 is
  met at step 25 and the walk ends at 99, and from word offset 52, where 50 is never met
  and the walk ends at 152.
\<close>

theorem up_walk_offsets_witness:
  "(\<exists>segs'. repeat 50 (up_step col_database col_grid ''CLB_IO_CLK'' 0x00400000 1)
        (51, 0, col_segments (col_seed [])) = Inr (1, 99, segs')) \<and>
   (\<exists>segs'. repeat 50 (up_step col_database col_grid ''CLB_IO_CLK'' 0x00400000 1)
        (51, 52, col_segments (col_seed [])) = Inr (1, 152, segs')) \<and>
   word_at 25 0 = 50 \<and> (\<exists>!i. i < 50 \<and> word_at i 0 = 50)"
proof -
  let ?segs = "col_segments (col_seed [])"
  let ?step = "up_step col_database col_grid ''CLB_IO_CLK'' 0x00400000 1"
  have k: "fst ` set ?segs = col_sname ` {..<52}" by (rule col_segments_keys)
  from walk_total [OF col_column_ok [OF k, of 51], of "''CLB_IO_CLK''" "0x00400000" 0]
  obtain segs1 where w1: "repeat 50 ?step (51, 0, ?segs) = Inr (1, word_at 50 0, segs1)"
    by auto
  from walk_total [OF col_column_ok [OF k, of 51], of "''CLB_IO_CLK''" "0x00400000" 52]
  obtain segs2 where w2: "repeat 50 ?step (51, 52, ?segs) = Inr (1, word_at 50 52, segs2)"
    by auto
  have hit: "\<exists>i<50. word_at i 0 = 50" by (intro exI [of _ 25]) (simp add: word_at_25)
  have miss: "\<forall>i<50. word_at i 52 \<noteq> 50" by (simp add: word_at_above)
  note t1 = up_walk_offsets [where db = col_database and grid = col_grid
      and fb = "0x00400000" and wb = 0 and segs = ?segs and bt = "''CLB_IO_CLK''" and x = 1
      and y = 51 and y' = 1 and wb' = "word_at 50 0" and segs' = segs1,
      THEN conjunct2, THEN conjunct1, THEN mp, OF w1]
  note t2 = up_walk_offsets [where db = col_database and grid = col_grid
      and fb = "0x00400000" and wb = 52 and segs = ?segs and bt = "''CLB_IO_CLK''" and x = 1
      and y = 51 and y' = 1 and wb' = "word_at 50 52" and segs' = segs2,
      THEN conjunct2, THEN conjunct1, THEN mp, OF w2]
  from t1 hit have e1: "word_at 50 0 = 0 + 99" "\<exists>!i. i < 50 \<and> word_at i 0 = 50" by blast+
  from t2 miss have e2: "word_at 50 52 = 52 + 100" by blast
  from w1 w2 e1 e2 word_at_25 show ?thesis by auto
qed

subsection \<open>The rows above a source\<close>

text \<open>
  Claim C10. For a source segment that holds a \<^verbatim>\<open>CLB_IO_CLK\<close> address and has one
  interconnect tile, at \<open>(x, y)\<close>, the vertical pass gets through the segment exactly when
  each of the 50 coordinates \<open>(x, y - 1)\<close> to \<open>(x, y - 50)\<close> is in the grid and the tile
  there is owned by an existing segment. A coordinate that is missing from the grid, or a
  tile there without owner, makes it fail with \<^verbatim>\<open>KeyError\<close>. So a vertical pass that returns has found
  these 50 rows above every segment that held a \<^verbatim>\<open>CLB_IO_CLK\<close> address when it started.
  The lateral pass returns the segments unchanged when its destination coordinate is not
  in the grid.
\<close>

theorem vertical_pass_needs_column:
  "(map_of segs name = Some seg \<and> s_baseaddr seg = Some b \<and> distinct (map fst b) \<and>
    map_of b ''CLB_IO_CLK'' = Some (fb, wb) \<and>
    get_inttile db seg = Inr it \<and> map_of db it = Some itd
    \<longrightarrow>
    ((\<exists>segs'. up_segment db grid name segs = Inr segs') \<longleftrightarrow>
       (\<forall>i\<in>{1..50}. \<exists>dst.
          owner_at db grid (t_grid_x itd) (t_grid_y itd - int i) = Some dst \<and>
          dst \<in> fst ` set segs)) \<and>
    ((\<exists>i\<in>{1..50}. map_of grid (t_grid_x itd, t_grid_y itd - int i) = None \<or>
         (\<exists>t td. map_of grid (t_grid_x itd, t_grid_y itd - int i) = Some t \<and>
            map_of db t = Some td \<and> t_segment td = None)) \<longrightarrow>
       up_segment db grid name segs = Inl KeyError)) \<and>
   (seg_base_addr_up_INT db segs grid = Inr segs' \<and> distinct_keys segs \<and>
    map_of segs name = Some seg \<and> segment_addr segs name ''CLB_IO_CLK'' \<noteq> None
    \<longrightarrow>
    (\<exists>it itd. get_inttile db seg = Inr it \<and> map_of db it = Some itd \<and>
       (\<forall>i\<in>{1..50}. \<exists>dst.
          owner_at db grid (t_grid_x itd) (t_grid_y itd - int i) = Some dst \<and>
          dst \<in> fst ` set segs))) \<and>
   (map_of grid c = None \<longrightarrow> lr_assign db grid bt c opp fb wb segs = Inr segs)"
proof (intro conjI impI)
  assume "map_of grid c = None"
  then show "lr_assign db grid bt c opp fb wb segs = Inr segs" by (rule lr_assign_absent)
next
  assume "seg_base_addr_up_INT db segs grid = Inr segs' \<and> distinct_keys segs \<and>
    map_of segs name = Some seg \<and> segment_addr segs name ''CLB_IO_CLK'' \<noteq> None"
  then have "seg_base_addr_up_INT db segs grid = Inr segs'" "distinct_keys segs"
    "map_of segs name = Some seg" "segment_addr segs name ''CLB_IO_CLK'' \<noteq> None"
    by simp_all
  then show "\<exists>it itd. get_inttile db seg = Inr it \<and> map_of db it = Some itd \<and>
       (\<forall>i\<in>{1..50}. \<exists>dst.
          owner_at db grid (t_grid_x itd) (t_grid_y itd - int i) = Some dst \<and>
          dst \<in> fst ` set segs)"
    by (rule up_pass_needs_columns)
next
  assume a: "map_of segs name = Some seg \<and> s_baseaddr seg = Some b \<and> distinct (map fst b) \<and>
    map_of b ''CLB_IO_CLK'' = Some (fb, wb) \<and>
    get_inttile db seg = Inr it \<and> map_of db it = Some itd"
  then have 1: "map_of segs name = Some seg" "s_baseaddr seg = Some b" "distinct (map fst b)"
      "map_of b ''CLB_IO_CLK'' = Some (fb, wb)"
    and 2: "get_inttile db seg = Inr it" "map_of db it = Some itd" by simp_all
  show "(\<exists>segs'. up_segment db grid name segs = Inr segs') \<longleftrightarrow>
       (\<forall>i\<in>{1..50}. \<exists>dst.
          owner_at db grid (t_grid_x itd) (t_grid_y itd - int i) = Some dst \<and>
          dst \<in> fst ` set segs)"
    by (rule up_segment_column_iff [OF 1 2])
  assume "\<exists>i\<in>{1..50}. map_of grid (t_grid_x itd, t_grid_y itd - int i) = None \<or>
         (\<exists>t td. map_of grid (t_grid_x itd, t_grid_y itd - int i) = Some t \<and>
            map_of db t = Some td \<and> t_segment td = None)"
  then obtain i where "i \<in> {1..50}"
    "map_of grid (t_grid_x itd, t_grid_y itd - int i) = None \<or>
         (\<exists>t td. map_of grid (t_grid_x itd, t_grid_y itd - int i) = Some t \<and>
            map_of db t = Some td \<and> t_segment td = None)"
    by blast
  then show "up_segment db grid name segs = Inl KeyError"
    by (rule up_segment_column_missing [OF 1 2])
qed

text \<open>
  The source of the lateral example has no row above it: the vertical pass fails on it,
  where the lateral assignment at the missing coordinate \<open>(2, 0)\<close> changes nothing. The
  bottom row of the column has its 50 rows: the vertical pass gets through it, and the
  whole pass returns.
\<close>

theorem vertical_pass_needs_column_witness:
  "up_segment ex2_database ex2_grid ''SEG_CLBLL_L_X2Y50'' ex2_segments = Inl KeyError \<and>
   map_of ex2_grid_edge (2, 0) = None \<and>
   lr_assign ex2_database ex2_grid_edge ''CLB_IO_CLK'' (2, 0) ''INT_R'' 0x00400080 0
     ex2_segments = Inr ex2_segments \<and>
   (\<exists>segs'. up_segment col_database col_grid (col_sname 0) (col_segments (col_seed [])) =
      Inr segs') \<and>
   (\<exists>segs'. seg_base_addr_up_INT col_database (col_segments (col_seed [])) col_grid =
      Inr segs') \<and>
   (\<exists>it itd. get_inttile col_database (col_segment (col_seed []) 0) = Inr it \<and>
      map_of col_database it = Some itd \<and>
      (\<forall>i\<in>{1..50}. \<exists>dst.
         owner_at col_database col_grid (t_grid_x itd) (t_grid_y itd - int i) = Some dst \<and>
         dst \<in> fst ` set (col_segments (col_seed []))))"
proof -
  note th = vertical_pass_needs_column
  have 1: "up_segment ex2_database ex2_grid ''SEG_CLBLL_L_X2Y50'' ex2_segments = Inl KeyError"
    by (rule th [THEN conjunct1, THEN mp, OF ex2_source_l [THEN conjunct1, THEN conjI,
            OF ex2_source_l [THEN conjunct2, THEN conjunct1, THEN conjI,
            OF ex2_source_l [THEN conjunct2, THEN conjunct2, THEN conjunct1, THEN conjI,
            OF ex2_source_l [THEN conjunct2, THEN conjunct2, THEN conjunct2, THEN conjunct1,
              THEN conjI,
            OF ex2_source_l [THEN conjunct2, THEN conjunct2, THEN conjunct2, THEN conjunct2,
              THEN conjunct1, THEN conjI,
            OF ex2_source_l [THEN conjunct2, THEN conjunct2, THEN conjunct2, THEN conjunct2,
              THEN conjunct2, THEN conjunct1]]]]]],
          THEN conjunct2, THEN mp])
      (rule bexI [of _ 1], simp_all add: ex2_grid_def plain_tile_def)
  have e: "map_of ex2_grid_edge (2, 0) = None" by (simp add: ex2_grid_edge_def)
  have 2: "lr_assign ex2_database ex2_grid_edge ''CLB_IO_CLK'' (2, 0) ''INT_R'' 0x00400080 0
     ex2_segments = Inr ex2_segments"
    by (rule th [THEN conjunct2, THEN conjunct2, THEN mp, OF e])
  let ?segs = "col_segments (col_seed [])"
  have h: "map_of ?segs (col_sname 0) = Some (col_segment (col_seed []) 0) \<and>
      s_baseaddr (col_segment (col_seed []) 0) = Some [(''CLB_IO_CLK'', (0x00400000, 0))] \<and>
      distinct (map fst [(''CLB_IO_CLK'', (0x00400000 :: int, 0 :: int))]) \<and>
      map_of [(''CLB_IO_CLK'', (0x00400000 :: int, 0 :: int))] ''CLB_IO_CLK'' =
        Some (0x00400000, 0) \<and>
      get_inttile col_database (col_segment (col_seed []) 0) = Inr (col_iname 0) \<and>
      map_of col_database (col_iname 0) = Some (col_int 0)"
    using col_get_inttile [of 0]
    by (simp add: col_segments_lookup col_segment_def col_seed_def get_inttile_def
        col_database_int del: inttiles.simps)
  have k: "fst ` set ?segs = col_sname ` {..<52}" by (rule col_segments_keys)
  have c: "\<forall>i\<in>{1..50}. \<exists>dst.
      owner_at col_database col_grid (t_grid_x (col_int 0)) (t_grid_y (col_int 0) - int i) =
        Some dst \<and> dst \<in> fst ` set ?segs"
    using col_column_ok [OF k, of 51] by (simp add: col_int_def)
  from th [THEN conjunct1, THEN mp, OF h, of col_grid, THEN conjunct1] c
  have 3: "\<exists>segs'. up_segment col_database col_grid (col_sname 0) ?segs = Inr segs'"
    by blast
  from col_pass [of "[]"] obtain segs2 where
    p: "seg_base_addr_up_INT col_database ?segs col_grid = Inr segs2"
    by auto
  have wf: "distinct_keys ?segs" by (rule col_distinct_keys) simp
  have a: "segment_addr ?segs (col_sname 0) ''CLB_IO_CLK'' \<noteq> None"
    by (simp add: col_segment_addr col_seed_def)
  from h have s: "map_of ?segs (col_sname 0) = Some (col_segment (col_seed []) 0)" by simp
  have 4: "\<exists>it itd. get_inttile col_database (col_segment (col_seed []) 0) = Inr it \<and>
      map_of col_database it = Some itd \<and>
      (\<forall>i\<in>{1..50}. \<exists>dst.
         owner_at col_database col_grid (t_grid_x itd) (t_grid_y itd - int i) = Some dst \<and>
         dst \<in> fst ` set ?segs)"
    by (rule th [where segs' = segs2 and name = "col_sname 0",
          THEN conjunct2, THEN conjunct1, THEN mp])
      (simp only: p wf s a simp_thms)
  from 1 e 2 3 p 4 show ?thesis by blast
qed

subsection \<open>The sources of the pass\<close>

text \<open>
  Claim C4 says that the sources of the vertical pass are the segments that hold a
  \<^verbatim>\<open>CLB_IO_CLK\<close> address before the pass, in lexicographic order, and that an address
  derived during the pass is never walked again in the same pass. The order is the one
  of \<open>sort\<close> and \<^const>\<open>sorted_items\<close>. The snapshot \<^const>\<open>src_segment_names\<close> however holds the segments that have
  a \<^verbatim>\<open>baseaddr\<close> key, whatever block types it holds, and the items of a source are read
  when its turn comes. On the column where \<^verbatim>\<open>SEG_CLBLL_L_X0Y0\<close> holds a \<^verbatim>\<open>CLB_IO_CLK\<close>
  address and \<^verbatim>\<open>SEG_CLBLL_L_X0Y1\<close> a \<^verbatim>\<open>BLOCK_RAM\<close> address only, the snapshot holds
  both. After the walk from the first, \<^verbatim>\<open>SEG_CLBLL_L_X0Y51\<close>, 51 rows above it, has no
  address; after the pass it holds word offset 101: the address \<open>(0x00400000, 2)\<close> that
  the second segment received during the pass has been walked 50 rows further.
\<close>

theorem up_pass_transitive_source:
  "col_sname 0 = ''SEG_CLBLL_L_X0Y0'' \<and> col_sname 1 = ''SEG_CLBLL_L_X0Y1'' \<and>
   col_sname 51 = ''SEG_CLBLL_L_X0Y51'' \<and>
   src_segment_names (col_segments (col_seed [(''BLOCK_RAM'', (0x00800000, 0))])) =
     [''SEG_CLBLL_L_X0Y0'', ''SEG_CLBLL_L_X0Y1''] \<and>
   segment_addr (col_segments (col_seed [(''BLOCK_RAM'', (0x00800000, 0))]))
     ''SEG_CLBLL_L_X0Y0'' ''CLB_IO_CLK'' = Some (0x00400000, 0) \<and>
   segment_addr (col_segments (col_seed [(''BLOCK_RAM'', (0x00800000, 0))]))
     ''SEG_CLBLL_L_X0Y1'' ''CLB_IO_CLK'' = None \<and>
   segment_addr (col_segments (col_seed [(''BLOCK_RAM'', (0x00800000, 0))]))
     ''SEG_CLBLL_L_X0Y1'' ''BLOCK_RAM'' = Some (0x00800000, 0) \<and>
   result_addr
     (up_segment col_database col_grid ''SEG_CLBLL_L_X0Y0''
        (col_segments (col_seed [(''BLOCK_RAM'', (0x00800000, 0))])))
     ''SEG_CLBLL_L_X0Y51'' ''CLB_IO_CLK'' = Inr None \<and>
   result_addr
     (seg_base_addr_up_INT col_database
        (col_segments (col_seed [(''BLOCK_RAM'', (0x00800000, 0))])) col_grid)
     ''SEG_CLBLL_L_X0Y51'' ''CLB_IO_CLK'' = Inr (Some (0x00400000, 101))"
proof -
  have n: "col_sname 0 = ''SEG_CLBLL_L_X0Y0''" "col_sname 1 = ''SEG_CLBLL_L_X0Y1''"
    "col_sname 51 = ''SEG_CLBLL_L_X0Y51''"
    by (simp_all add: col_sname_def col_cname_def dec.simps digit_char_def)
  let ?segs = "col_segments (col_seed [(''BLOCK_RAM'', (0x00800000, 0))])"
  have "src_segment_names ?segs = [col_sname 0, col_sname 1]" by (rule col_src_names)
  moreover have "segment_addr ?segs (col_sname 0) ''CLB_IO_CLK'' = Some (0x00400000, 0)"
    "segment_addr ?segs (col_sname 1) ''CLB_IO_CLK'' = None"
    "segment_addr ?segs (col_sname 1) ''BLOCK_RAM'' = Some (0x00800000, 0)"
    by (simp_all add: col_segment_addr col_seed_def)
  moreover from col_pass [of "[(''BLOCK_RAM'', (0x00800000, 0))]"]
  have "result_addr (up_segment col_database col_grid (col_sname 0) ?segs)
     (col_sname 51) ''CLB_IO_CLK'' = Inr None"
    "result_addr (seg_base_addr_up_INT col_database ?segs col_grid)
     (col_sname 51) ''CLB_IO_CLK'' = Inr (Some (0x00400000, 101))"
    by (auto simp: result_addr_def)
  ultimately show ?thesis unfolding n by simp
qed

subsection \<open>Agreement of derived addresses\<close>

lemma ex2_lr_pass:
  "seg_base_addr_lr_INT ex2_database ex2_segments ex2_grid = Inr ex2_segments_out"
  by (simp add: seg_base_addr_lr_INT_def ex2_segments_def ex2_segments_out_def
      ex2_database_def ex2_grid_def ex2_seg_l_def ex2_seg_r_def lr_segment_def
      sorted_items_def lr_item_def get_inttile_def lr_assign_def)

text \<open>
  Claim C1 says that on every derivation path an address derived for a pair that holds
  one already is equal to it or aborts the computation. The vertical pass makes no such
  test: \<^verbatim>\<open>setdefault("baseaddr", {})[block_type] = [framebase, wordbase]\<close> stores the
  derived address whatever is there. On the column where the second row holds
  \<open>(0x00400100, 0)\<close>, the pass returns and the row holds \<open>(0x00400000, 2)\<close>.
\<close>

theorem up_pass_replaces_address:
  "col_sname 1 = ''SEG_CLBLL_L_X0Y1'' \<and>
   segment_addr (col_segments (col_seed [(''CLB_IO_CLK'', (0x00400100, 0))]))
     ''SEG_CLBLL_L_X0Y1'' ''CLB_IO_CLK'' = Some (0x00400100, 0) \<and>
   result_addr
     (seg_base_addr_up_INT col_database
        (col_segments (col_seed [(''CLB_IO_CLK'', (0x00400100, 0))])) col_grid)
     ''SEG_CLBLL_L_X0Y1'' ''CLB_IO_CLK'' = Inr (Some (0x00400000, 2))"
proof -
  have n: "col_sname 1 = ''SEG_CLBLL_L_X0Y1''"
    by (simp add: col_sname_def col_cname_def dec_digit digit_char_def)
  have "segment_addr (col_segments (col_seed [(''CLB_IO_CLK'', (0x00400100, 0))]))
     (col_sname 1) ''CLB_IO_CLK'' = Some (0x00400100, 0)"
    by (simp add: col_segment_addr col_seed_def)
  moreover from col_pass [of "[(''CLB_IO_CLK'', (0x00400100, 0))]"]
  have "result_addr
     (seg_base_addr_up_INT col_database
        (col_segments (col_seed [(''CLB_IO_CLK'', (0x00400100, 0))])) col_grid)
     (col_sname 1) ''CLB_IO_CLK'' = Inr (Some (0x00400000, 2))"
    by (auto simp: result_addr_def)
  ultimately show ?thesis unfolding n by simp
qed

text \<open>
  Claim C1, amended. The lateral pass never changes an address: its result extends the
  segments it was given. Its assignment returns only when the destination pair held no
  address or held the derived one, and it fails with an assertion error when the pair
  holds another one. A step of the vertical pass that returns has stored the derived
  address in the destination pair, whatever the pair held, and has changed no other
  pair.
\<close>

theorem propagation_consistency:
  "(seg_base_addr_lr_INT db segs grid = Inr segs' \<longrightarrow> extends segs segs') \<and>
   (\<forall>t. lr_assign db grid bt c opp fb wb segs = Inr segs' \<and> map_of grid c = Some t \<longrightarrow>
      (\<exists>td owner. map_of db t = Some td \<and> t_segment td = Some owner \<and>
         (segment_addr segs owner bt = None \<or> segment_addr segs owner bt = Some (fb, wb)) \<and>
         segment_addr segs' owner bt = Some (fb, wb))) \<and>
   (\<forall>t td owner v. map_of grid c = Some t \<and> map_of db t = Some td \<and> t_type td = opp \<and>
      t_segment td = Some owner \<and> segment_addr segs owner bt = Some v \<and> v \<noteq> (fb, wb) \<longrightarrow>
      lr_assign db grid bt c opp fb wb segs = Inl AssertionError) \<and>
   (up_step db grid bt fb x (y, wb, segs) = Inr (y', wb', segs') \<longrightarrow>
      (\<exists>dst. owner_at db grid x (y - 1) = Some dst \<and>
         segment_addr segs' dst bt = Some (fb, next_wordbase wb) \<and>
         (\<forall>s b. s \<noteq> dst \<or> b \<noteq> bt \<longrightarrow> segment_addr segs' s b = segment_addr segs s b)))"
proof (intro conjI impI allI)
  assume "seg_base_addr_lr_INT db segs grid = Inr segs'"
  then show "extends segs segs'" by (rule seg_base_addr_lr_INT_extends)
next
  fix t
  assume "lr_assign db grid bt c opp fb wb segs = Inr segs' \<and> map_of grid c = Some t"
  then have "lr_assign db grid bt c opp fb wb segs = Inr segs'" "map_of grid c = Some t"
    by simp_all
  from lr_assign_Inr [OF this]
  show "\<exists>td owner. map_of db t = Some td \<and> t_segment td = Some owner \<and>
         (segment_addr segs owner bt = None \<or> segment_addr segs owner bt = Some (fb, wb)) \<and>
         segment_addr segs' owner bt = Some (fb, wb)"
    by blast
next
  fix t td owner v
  assume a: "map_of grid c = Some t \<and> map_of db t = Some td \<and> t_type td = opp \<and>
      t_segment td = Some owner \<and> segment_addr segs owner bt = Some v \<and> v \<noteq> (fb, wb)"
  then obtain sd where sd: "map_of segs owner = Some sd"
    by (auto simp: segment_addr_def split: option.splits)
  from a have f: "map_of grid c = Some t" "map_of db t = Some td" "t_type td = opp"
    "t_segment td = Some owner" by simp_all
  from a show "lr_assign db grid bt c opp fb wb segs = Inl AssertionError"
    unfolding lr_assign_present [OF f sd] by simp
next
  assume "up_step db grid bt fb x (y, wb, segs) = Inr (y', wb', segs')"
  from up_step_effect [OF this]
  show "\<exists>dst. owner_at db grid x (y - 1) = Some dst \<and>
         segment_addr segs' dst bt = Some (fb, next_wordbase wb) \<and>
         (\<forall>s b. s \<noteq> dst \<or> b \<noteq> bt \<longrightarrow> segment_addr segs' s b = segment_addr segs s b)"
    by auto
qed

text \<open>
  In the lateral example the pass returns and extends the segments; a second derivation
  with another frame base for the right segment fails. On the column, the first step from
  the bottom row replaces \<open>(0x00400100, 0)\<close> by \<open>(0x00400000, 2)\<close>.
\<close>

theorem propagation_consistency_witness:
  "seg_base_addr_lr_INT ex2_database ex2_segments ex2_grid = Inr ex2_segments_out \<and>
   extends ex2_segments ex2_segments_out \<and>
   segment_addr ex2_segments_out ''SEG_CLBLM_R_X3Y50'' ''CLB_IO_CLK'' = Some (0x00400080, 0) \<and>
   lr_assign ex2_database ex2_grid ''CLB_IO_CLK'' (2, 0) ''INT_R'' 0x00500080 0
     ex2_segments_out = Inl AssertionError \<and>
   segment_addr (col_segments (col_seed [(''CLB_IO_CLK'', (0x00400100, 0))]))
     (col_sname 1) ''CLB_IO_CLK'' = Some (0x00400100, 0) \<and>
   (\<exists>segs'. up_step col_database col_grid ''CLB_IO_CLK'' 0x00400000 1
        (51, 0, col_segments (col_seed [(''CLB_IO_CLK'', (0x00400100, 0))])) =
        Inr (50, 2, segs') \<and>
      segment_addr segs' (col_sname 1) ''CLB_IO_CLK'' = Some (0x00400000, 2))"
proof -
  let ?segs = "col_segments (col_seed [(''CLB_IO_CLK'', (0x00400100, 0))])"
  note th = propagation_consistency
  have a: "segment_addr ex2_segments_out ''SEG_CLBLM_R_X3Y50'' ''CLB_IO_CLK'' =
      Some (0x00400080, 0)"
    by (simp add: segment_addr_def ex2_segments_out_def ex2_seg_r_def)
  have 1: "extends ex2_segments ex2_segments_out"
    using th [where db = ex2_database and segs = ex2_segments and grid = ex2_grid
        and segs' = ex2_segments_out, THEN conjunct1]
      ex2_lr_pass by simp
  have 2: "lr_assign ex2_database ex2_grid ''CLB_IO_CLK'' (2, 0) ''INT_R'' 0x00500080 0
     ex2_segments_out = Inl AssertionError"
    by (rule th [where grid = ex2_grid and db = ex2_database and bt = "''CLB_IO_CLK''"
          and c = "(2, 0)" and opp = "''INT_R''" and fb = "0x00500080" and wb = 0
          and segs = ex2_segments_out,
          THEN conjunct2, THEN conjunct2, THEN conjunct1, rule_format,
          of "''INT_R_X3Y50''"
             "plain_tile ''INT_R'' 2 0\<lparr>t_segment := Some ''SEG_CLBLM_R_X3Y50''\<rparr>"
             "''SEG_CLBLM_R_X3Y50''" "(0x00400080, 0)"])
      (simp add: a ex2_grid_def ex2_database_def plain_tile_def)
  have o: "owner_at col_database col_grid 1 (51 - 1) = Some (col_sname 1)"
    using col_owner [of 50] by simp
  have k: "col_sname 1 \<in> fst ` set ?segs" unfolding col_segments_keys by simp
  from up_step_total [OF o k, of "''CLB_IO_CLK''" "0x00400000" 0] obtain segs' where
    s: "up_step col_database col_grid ''CLB_IO_CLK'' 0x00400000 1 (51, 0, ?segs) =
        Inr (50, 2, segs')"
    by (auto simp: next_wordbase_def)
  from th [where db = col_database and bt = "''CLB_IO_CLK''" and fb = "0x00400000"
      and wb = 0 and segs = ?segs and grid = col_grid and x = 1 and y = 51 and y' = 50
      and wb' = 2 and segs' = segs', THEN conjunct2, THEN conjunct2, THEN conjunct2] s o
  have 3: "segment_addr segs' (col_sname 1) ''CLB_IO_CLK'' = Some (0x00400000, 2)"
    by (auto simp: next_wordbase_def)
  have b: "segment_addr ?segs (col_sname 1) ''CLB_IO_CLK'' = Some (0x00400100, 0)"
    by (simp add: col_segment_addr col_seed_def)
  from ex2_lr_pass 1 a 2 b s 3 show ?thesis by blast
qed

end
